theory Spec2Isabelle
  imports Complex_Main "HOL-Library.Word"
begin

unbundle bit_operations_syntax

section \<open>The GPU buffer pool (gpu\_buffers.c)\<close>

text \<open>
  A \<open>GPUBuffer\<close> is the struct of GPU\_buffers.h: \<open>int size\<close>, \<open>void *pointer\<close>,
  \<open>unsigned int id\<close>, \<open>bool use_vbo\<close>. The byte size is a 32-bit C \<open>int\<close>; requests
  are \<open>size_t\<close> values (64 bits here). \<open>pointer\<close> is \<open>None\<close> for \<open>NULL\<close> and otherwise
  the address of the block handed out by the allocator.
\<close>

record GPUBuffer =
  size_buf :: "32 word"
  pointer_buf :: "nat option"
  id_buf :: nat
  use_vbo :: bool

text \<open>
  The pool keeps \<open>totbuf\<close> buffers in the slots \<open>0 ..< totbuf\<close> of an array with \<open>maxsize\<close>
  slots. No function of the file reads a slot at or beyond \<open>totbuf\<close>, so the model keeps
  the occupied prefix of the array as the list \<open>buffers\<close>; \<open>totbuf\<close> is its length and
  \<open>maxsize\<close> is the allocated length of the array.
\<close>

record GPUBufferPool =
  maxsize :: nat
  buffers :: "GPUBuffer list"

definition totbuf :: "GPUBufferPool \<Rightarrow> nat" where
  "totbuf pool = length (buffers pool)"

definition MAX_FREE_GPU_BUFFERS :: nat where
  "MAX_FREE_GPU_BUFFERS = 8"

text \<open>
  What the pool code shares with its surroundings: the static pointer \<open>gpu_buffer_pool\<close>
  (\<open>None\<close> until first use), the next fresh name that \<open>glGenBuffersARB\<close> or \<open>MEM_mallocN\<close>
  hands out, the number of coming \<open>MEM_mallocN\<close> calls for buffer data that return \<open>NULL\<close>,
  and the log of the buffers whose data has been destroyed (latest first).
\<close>

record gpu_world =
  gpu_buffer_pool :: "GPUBufferPool option"
  next_name :: nat
  malloc_fails :: nat
  deleted :: "GPUBuffer list"

definition gpu_buffer_pool_new :: GPUBufferPool where
  "gpu_buffer_pool_new = \<lparr>maxsize = MAX_FREE_GPU_BUFFERS, buffers = []\<rparr>"

text \<open>\<open>gpu_buffer_pool_remove_index\<close>: shift the entries above \<open>index\<close> down by one.\<close>

definition gpu_buffer_pool_remove_index :: "GPUBufferPool \<Rightarrow> nat \<Rightarrow> GPUBufferPool" where
  "gpu_buffer_pool_remove_index pool index =
     (if index \<ge> totbuf pool then pool
      else pool\<lparr>buffers := take index (buffers pool) @ drop (Suc index) (buffers pool)\<rparr>)"

text \<open>
  \<open>gpu_buffer_pool_delete_last\<close>: destroy the data of the last entry and drop it from the
  pool. It works on the pool and on the log of destroyed buffers.
\<close>

definition gpu_buffer_pool_delete_last ::
  "GPUBufferPool \<times> GPUBuffer list \<Rightarrow> GPUBufferPool \<times> GPUBuffer list" where
  "gpu_buffer_pool_delete_last = (\<lambda>(pool, del).
     if totbuf pool \<le> 0 then (pool, del)
     else (pool\<lparr>buffers := butlast (buffers pool)\<rparr>, last (buffers pool) # del))"

text \<open>\<open>gpu_get_global_buffer_pool\<close>: create the pool on first use.\<close>

definition gpu_get_global_buffer_pool :: "gpu_world \<Rightarrow> GPUBufferPool \<times> gpu_world" where
  "gpu_get_global_buffer_pool w =
     (case gpu_buffer_pool w of
        None \<Rightarrow> (gpu_buffer_pool_new, w\<lparr>gpu_buffer_pool := Some gpu_buffer_pool_new\<rparr>)
      | Some pool \<Rightarrow> (pool, w))"

text \<open>
  The size of a pooled buffer as the scan reads it:
  \<open>bufsize = pool->buffers[i]->size\<close> converts the \<open>int\<close> field to \<open>size_t\<close>.
\<close>

definition bufsize_of :: "GPUBuffer \<Rightarrow> 64 word" where
  "bufsize_of b = scast (size_buf b)"

text \<open>
  The scan loop of \<open>gpu_buffer_alloc_intern\<close>, from index \<open>i\<close> with the best fit found so
  far (\<open>None\<close> is the source's \<open>-1\<close>). An exact match ends the loop at once.
\<close>

function scan_pool ::
  "GPUBuffer list \<Rightarrow> 64 word \<Rightarrow> bool \<Rightarrow> nat \<Rightarrow> nat option \<Rightarrow> nat option" where
  "scan_pool bufs sz use_VBO i bestfit =
     (if i < length bufs then
        (let bufsize = bufsize_of (bufs ! i) in
         if use_vbo (bufs ! i) \<noteq> use_VBO then scan_pool bufs sz use_VBO (Suc i) bestfit
         else if bufsize = sz then Some i
         else if bufsize > sz \<and> sz > bufsize div 2 then
           (if bestfit = None \<or> bufsize_of (bufs ! the bestfit) > bufsize
            then scan_pool bufs sz use_VBO (Suc i) (Some i)
            else scan_pool bufs sz use_VBO (Suc i) bestfit)
         else scan_pool bufs sz use_VBO (Suc i) bestfit)
      else bestfit)"
  by pat_completeness auto
termination
  by (relation "measure (\<lambda>(bufs, sz, use_VBO, i, bestfit). length bufs - i)") auto

declare scan_pool.simps [simp del]

text \<open>
  The retry loop of the vertex-array branch: while the allocation fails and the pool is not
  empty, destroy the last pooled buffer and try again. \<open>fails\<close> counts the allocations that
  still return \<open>NULL\<close>; the result is whether the last attempt succeeded.
\<close>

function malloc_retry ::
  "nat \<Rightarrow> GPUBufferPool \<times> GPUBuffer list \<Rightarrow> bool \<times> nat \<times> GPUBufferPool \<times> GPUBuffer list" where
  "malloc_retry fails pd =
     (if fails > 0 \<and> totbuf (fst pd) > 0
      then malloc_retry (fails - 1) (gpu_buffer_pool_delete_last pd)
      else (fails = 0, fails - 1, pd))"
  by pat_completeness auto
termination
  by (relation "measure (\<lambda>(fails, pd). fails)") auto

declare malloc_retry.simps [simp del]

text \<open>
  \<open>gpu_buffer_alloc_intern\<close>. The result is the returned pointer (\<open>None\<close> for \<open>NULL\<close>) and
  the new world. A buffer taken from the pool is removed from it; a fresh one carries the
  requested size truncated to the \<open>int\<close> field.
\<close>

definition gpu_buffer_create :: "64 word \<Rightarrow> bool \<Rightarrow> GPUBufferPool \<Rightarrow> gpu_world \<Rightarrow> GPUBuffer option \<times> gpu_world" where
  "gpu_buffer_create sz use_VBO pool w =
     (let buf = \<lparr>size_buf = ucast sz, pointer_buf = None, id_buf = 0, use_vbo = use_VBO\<rparr> in
      if use_VBO then
        (Some (buf\<lparr>id_buf := next_name w\<rparr>), w\<lparr>next_name := Suc (next_name w)\<rparr>)
      else
        (case malloc_retry (malloc_fails w) (pool, deleted w) of
           (ok, fails', pool', del') \<Rightarrow>
             let w' = w\<lparr>gpu_buffer_pool := Some pool', malloc_fails := fails', deleted := del'\<rparr> in
             if \<not> ok then (None, w')
             else (Some (buf\<lparr>pointer_buf := Some (next_name w)\<rparr>),
                   w'\<lparr>next_name := Suc (next_name w)\<rparr>)))"

definition gpu_buffer_alloc_intern :: "64 word \<Rightarrow> bool \<Rightarrow> gpu_world \<Rightarrow> GPUBuffer option \<times> gpu_world" where
  "gpu_buffer_alloc_intern sz use_VBO w =
     (if sz = 0 then (None, w)
      else
        (case gpu_get_global_buffer_pool w of (pool, w1) \<Rightarrow>
           (case scan_pool (buffers pool) sz use_VBO 0 None of
              Some bestfit \<Rightarrow>
                (Some (buffers pool ! bestfit),
                 w1\<lparr>gpu_buffer_pool := Some (gpu_buffer_pool_remove_index pool bestfit)\<rparr>)
            | None \<Rightarrow> gpu_buffer_create sz use_VBO pool w1)))"

text \<open>
  \<open>GPU_buffer_alloc\<close>: the locked entry point. \<open>vbo_ok\<close> stands for
  \<open>GLEW_ARB_vertex_buffer_object && !(U.gameflags & USER_DISABLE_VBO)\<close>, two globals of other
  files. Taking and releasing \<open>buffer_mutex\<close> changes nothing in a sequential run.
\<close>

definition GPU_buffer_alloc :: "bool \<Rightarrow> 64 word \<Rightarrow> bool \<Rightarrow> gpu_world \<Rightarrow> GPUBuffer option \<times> gpu_world" where
  "GPU_buffer_alloc vbo_ok sz force_vertex_arrays w =
     (let use_VBOs = (vbo_ok \<and> \<not> force_vertex_arrays) in
      if sz = 0 then (None, w)
      else gpu_buffer_alloc_intern sz use_VBOs w)"

text \<open>The trimming loop of the main thread: \<open>while (pool->totbuf >= MAX_FREE_GPU_BUFFERS)\<close>.\<close>

function trim_pool :: "GPUBufferPool \<times> GPUBuffer list \<Rightarrow> GPUBufferPool \<times> GPUBuffer list" where
  "trim_pool pd =
     (if totbuf (fst pd) \<ge> MAX_FREE_GPU_BUFFERS
      then trim_pool (gpu_buffer_pool_delete_last pd) else pd)"
  by pat_completeness auto
termination
  by (relation "measure (\<lambda>pd. totbuf (fst pd))")
     (auto simp: gpu_buffer_pool_delete_last_def totbuf_def MAX_FREE_GPU_BUFFERS_def
           split: prod.splits)

declare trim_pool.simps [simp del]

text \<open>
  \<open>gpu_buffer_free_intern\<close>. \<open>is_main\<close> is the result of \<open>BLI_thread_is_main()\<close>; the buffer
  argument is \<open>None\<close> for a \<open>NULL\<close> pointer.
\<close>

definition gpu_buffer_free_intern :: "bool \<Rightarrow> GPUBuffer option \<Rightarrow> gpu_world \<Rightarrow> gpu_world" where
  "gpu_buffer_free_intern is_main buffer w =
     (case buffer of
        None \<Rightarrow> w
      | Some buf \<Rightarrow>
          (case gpu_get_global_buffer_pool w of (pool, w1) \<Rightarrow>
             let (pool1, del1) =
                   (if is_main then trim_pool (pool, deleted w1)
                    else if maxsize pool = totbuf pool
                         then (pool\<lparr>maxsize := maxsize pool + MAX_FREE_GPU_BUFFERS\<rparr>, deleted w1)
                         else (pool, deleted w1))
             in w1\<lparr>gpu_buffer_pool := Some (pool1\<lparr>buffers := buf # buffers pool1\<rparr>),
                    deleted := del1\<rparr>))"

definition GPU_buffer_free :: "bool \<Rightarrow> GPUBuffer option \<Rightarrow> gpu_world \<Rightarrow> gpu_world" where
  "GPU_buffer_free is_main buffer w =
     (case buffer of None \<Rightarrow> w | Some buf \<Rightarrow> gpu_buffer_free_intern is_main (Some buf) w)"

text \<open>
  Vocabulary for the scan. A pooled buffer is an exact fit for a request when it has the
  requested kind and size; it is a loose fit when it has the requested kind, is larger than
  the request, and the request is more than half of it. \<open>best_upto\<close> says that \<open>bestfit\<close> is
  the first smallest loose fit among the first \<open>i\<close> entries (or that there is none).
\<close>

definition exact_fit :: "64 word \<Rightarrow> bool \<Rightarrow> GPUBuffer \<Rightarrow> bool" where
  "exact_fit sz use_VBO b = (use_vbo b = use_VBO \<and> bufsize_of b = sz)"

definition loose_fit :: "64 word \<Rightarrow> bool \<Rightarrow> GPUBuffer \<Rightarrow> bool" where
  "loose_fit sz use_VBO b =
     (use_vbo b = use_VBO \<and> bufsize_of b > sz \<and> sz > bufsize_of b div 2)"

definition best_upto :: "GPUBuffer list \<Rightarrow> 64 word \<Rightarrow> bool \<Rightarrow> nat \<Rightarrow> nat option \<Rightarrow> bool" where
  "best_upto bufs sz use_VBO i bestfit =
     (case bestfit of
        None \<Rightarrow> (\<forall>k<i. \<not> loose_fit sz use_VBO (bufs ! k))
      | Some j \<Rightarrow> j < i \<and> loose_fit sz use_VBO (bufs ! j)
          \<and> (\<forall>k<i. loose_fit sz use_VBO (bufs ! k) \<longrightarrow> bufsize_of (bufs ! j) \<le> bufsize_of (bufs ! k))
          \<and> (\<forall>k<j. loose_fit sz use_VBO (bufs ! k) \<longrightarrow> bufsize_of (bufs ! j) < bufsize_of (bufs ! k)))"

text \<open>
  The invariant of the pool: the array has at least the default number of slots and the
  count of stored buffers is within the array.
\<close>

definition pool_inv :: "GPUBufferPool \<Rightarrow> bool" where
  "pool_inv pool = (MAX_FREE_GPU_BUFFERS \<le> maxsize pool \<and> totbuf pool \<le> maxsize pool)"

text \<open>The pool a function of the file works on: the global one, created when absent.\<close>

definition the_pool :: "gpu_world \<Rightarrow> GPUBufferPool" where
  "the_pool w = fst (gpu_get_global_buffer_pool w)"

text \<open>Concrete data for the examples: a buffer of a given size and kind, and two worlds.\<close>

definition mk_buffer :: "32 word \<Rightarrow> bool \<Rightarrow> nat \<Rightarrow> GPUBuffer" where
  "mk_buffer s v n =
     \<lparr>size_buf = s, pointer_buf = (if v then None else Some n),
      id_buf = (if v then n else 0), use_vbo = v\<rparr>"

definition world0 :: gpu_world where
  "world0 = \<lparr>gpu_buffer_pool = None, next_name = 100, malloc_fails = 0, deleted = []\<rparr>"

definition world_full :: gpu_world where
  "world_full =
     \<lparr>gpu_buffer_pool = Some \<lparr>maxsize = 8,
         buffers = [mk_buffer 64 True 1, mk_buffer 100 False 2, mk_buffer 40 True 3,
                    mk_buffer 48 True 4, mk_buffer 16 True 5, mk_buffer 16 False 6,
                    mk_buffer 8 True 7, mk_buffer 4 True 8]\<rparr>,
      next_name = 100, malloc_fails = 0, deleted = []\<rparr>"

section \<open>The face weight table (subsurf\_ccg.c)\<close>

text \<open>
  \<open>get_ss_weights\<close> fills, for a face of \<open>faceLen\<close> corners, an array of
  \<open>faceLen * (gridCuts + 2) * (gridCuts + 2)\<close> rows of \<open>faceLen\<close> weights each and caches
  it in the table entry of index \<open>faceLen\<close>. The source computes in \<open>float\<close>; the model
  evaluates the same expressions in exact rational arithmetic. An entry holds the array
  \<open>w\<close> (the field \<open>w_entry\<close>, empty while unallocated) and the flag \<open>valid\<close>; the table is the array
  \<open>weight_table\<close>, and \<open>len\<close> is its length.
\<close>

record FaceVertWeightEntry =
  w_entry :: "rat list"
  valid :: bool

type_synonym WeightTable = "FaceVertWeightEntry list"

definition len :: "WeightTable \<Rightarrow> nat" where
  "len wtable = length wtable"

text \<open>
  The three primary weights of the loop body at grid position \<open>(x, y)\<close>: \<open>w1\<close> for the
  corner itself, \<open>w2\<close> for the previous corner and \<open>w4\<close> for the next one.
\<close>

definition corner_weights :: "nat \<Rightarrow> nat \<Rightarrow> nat \<Rightarrow> nat \<Rightarrow> rat \<times> rat \<times> rat" where
  "corner_weights gridCuts faceLen x y =
     (let fac = 1 / of_nat faceLen;
          fx = 1 / 2 - of_nat x / of_nat (gridCuts + 1) / 2;
          fy = 1 / 2 - of_nat y / of_nat (gridCuts + 1) / 2;
          fac2 = of_int (int faceLen - 4);
          w1 = (1 - fx) * (1 - fy) + (- fac2 * fx * fy * fac);
          w2 = (1 - fx + fac2 * fx * - fac) * fy;
          w4 = fx * (1 - fy + - fac2 * fy * fac)
      in (w1, w2, w4))"

text \<open>
  One pass of the innermost loop body: the row of corner \<open>i\<close> at grid position \<open>(x, y)\<close>.
  The row starts zeroed (\<open>MEM_callocN\<close>); for more than three corners every slot first gets
  the evenly spread residual, then the slots of the corner, of its predecessor and of its
  successor are overwritten with \<open>w1\<close>, \<open>w2\<close> and \<open>w4\<close>.
\<close>

definition weight_row :: "nat \<Rightarrow> nat \<Rightarrow> nat \<Rightarrow> nat \<Rightarrow> nat \<Rightarrow> rat list" where
  "weight_row gridCuts faceLen i x y =
     (case corner_weights gridCuts faceLen x y of (w1, w2, w4) \<Rightarrow>
        let row0 = (if faceLen > 3
                    then replicate faceLen ((1 - (w1 + w2 + w4)) / of_nat (faceLen - 3))
                    else replicate faceLen 0);
            row1 = row0[i := w1];
            row2 = row1[(i + faceLen - 1) mod faceLen := w2]
        in row2[(i + 1) mod faceLen := w4])"

text \<open>
  The three nested loops (\<open>i\<close>, then \<open>x\<close>, then \<open>y\<close>) write the rows one after the other,
  the write pointer advancing by \<open>faceLen\<close> after each.
\<close>

definition ss_weight_rows :: "nat \<Rightarrow> nat \<Rightarrow> rat list list" where
  "ss_weight_rows gridCuts faceLen =
     concat (map (\<lambda>i. concat (map (\<lambda>x. map (\<lambda>y. weight_row gridCuts faceLen i x y)
                                              [0..<gridCuts + 2])
                                 [0..<gridCuts + 2]))
                 [0..<faceLen])"

definition ss_weights :: "nat \<Rightarrow> nat \<Rightarrow> rat list" where
  "ss_weights gridCuts faceLen = concat (ss_weight_rows gridCuts faceLen)"

text \<open>
  \<open>get_ss_weights\<close>: grow the table to \<open>faceLen + 1\<close> zeroed entries when it is too short
  (the old entries are copied), fill the entry of \<open>faceLen\<close> when it is not valid, and
  return its array together with the table.
\<close>

definition get_ss_weights :: "WeightTable \<Rightarrow> nat \<Rightarrow> nat \<Rightarrow> rat list \<times> WeightTable" where
  "get_ss_weights wtable gridCuts faceLen =
     (let wt1 = (if len wtable \<le> faceLen
                 then wtable @ replicate (faceLen + 1 - len wtable) \<lparr>w_entry = [], valid = False\<rparr>
                 else wtable);
          wt2 = (if \<not> valid (wt1 ! faceLen)
                 then wt1[faceLen := (wt1 ! faceLen)\<lparr>valid := True,
                                                      w_entry := ss_weights gridCuts faceLen\<rparr>]
                 else wt1)
      in (w_entry (wt2 ! faceLen), wt2))"

text \<open>The row of index \<open>r\<close> in a weight array whose rows have \<open>faceLen\<close> entries.\<close>

definition row_at :: "nat \<Rightarrow> rat list \<Rightarrow> nat \<Rightarrow> rat list" where
  "row_at faceLen ws r = take faceLen (drop (r * faceLen) ws)"



section \<open>Vertex creation of the UV resync (subsurf\_ccg.c, ss\_sync\_from\_uv)\<close>

text \<open>
  The UV vertex map gives, for each base vertex, a linked list of \<open>UvMapVert\<close> nodes, one
  per face corner at that vertex: the face \<open>f\<close>, the corner \<open>tfindex\<close> in the face, and
  the flag \<open>separate\<close> that starts a new UV island in the list. The list is empty where
  \<open>BKE_mesh_uv_vert_map_get_vert\<close> returns \<open>NULL\<close>; \<open>next\<close> is the tail of the list.
  A base vertex carries the \<open>char\<close> field \<open>flag\<close>; a polygon its \<open>loopstart\<close>.
  The bit \<open>ME_VERT_MERGED\<close> is defined in a header outside the sources at hand and is a
  parameter of the model.
\<close>

record UvMapVert =
  uv_f :: nat
  uv_tfindex :: nat
  uv_separate :: bool

record MVert =
  mv_flag :: "8 word"

record MPoly =
  loopstart :: nat
  totloop :: nat

text \<open>
  A call \<open>ccgSubSurf_syncVert(ss, vhdl, uv, seam, &ssv)\<close> of the subdivision engine: the
  vertex handle (a loop index), the UV coordinates copied from the loop, and the seam flag.
\<close>

record 'uv syncVert_call =
  sv_vhdl :: nat
  sv_uv :: 'uv
  sv_seam :: bool

text \<open>
  \<open>for (v = first->next; v; v = v->next) if (v->separate) break;\<close>
  run on the tail of the list: the node the loop stops at, or \<open>None\<close> for \<open>NULL\<close>.
\<close>

fun find_separate :: "UvMapVert list \<Rightarrow> UvMapVert option" where
  "find_separate [] = None"
| "find_separate (v # vs) = (if uv_separate v then Some v else find_separate vs)"

text \<open>The second loop over the list: one \<open>syncVert\<close> call for each separate node.\<close>

fun sync_separate ::
  "MPoly list \<Rightarrow> 'uv list \<Rightarrow> bool \<Rightarrow> UvMapVert list \<Rightarrow> 'uv syncVert_call list" where
  "sync_separate mpoly mloopuv seam [] = []"
| "sync_separate mpoly mloopuv seam (v # vs) =
     (if uv_separate v
      then (let loopid = loopstart (mpoly ! uv_f v) + uv_tfindex v in
            \<lparr>sv_vhdl = loopid, sv_uv = mloopuv ! loopid, sv_seam = seam\<rparr>
              # sync_separate mpoly mloopuv seam vs)
      else sync_separate mpoly mloopuv seam vs)"

text \<open>The body of the vertex loop for base vertex \<open>i\<close>, and the loop itself.\<close>

definition sync_uv_vert ::
  "8 word \<Rightarrow> (nat \<Rightarrow> UvMapVert list) \<Rightarrow> MVert list \<Rightarrow> MPoly list \<Rightarrow> 'uv list \<Rightarrow> nat
   \<Rightarrow> 'uv syncVert_call list" where
  "sync_uv_vert ME_VERT_MERGED vmap mvert mpoly mloopuv i =
     (case vmap i of
        [] \<Rightarrow> []
      | first # rest \<Rightarrow>
          (let v = find_separate rest;
               seam = (v \<noteq> None \<or> mv_flag (mvert ! i) AND ME_VERT_MERGED \<noteq> 0)
           in sync_separate mpoly mloopuv seam (first # rest)))"

definition ss_sync_from_uv_verts ::
  "8 word \<Rightarrow> (nat \<Rightarrow> UvMapVert list) \<Rightarrow> MVert list \<Rightarrow> MPoly list \<Rightarrow> 'uv list \<Rightarrow> nat
   \<Rightarrow> 'uv syncVert_call list" where
  "ss_sync_from_uv_verts ME_VERT_MERGED vmap mvert mpoly mloopuv totvert =
     concat (map (sync_uv_vert ME_VERT_MERGED vmap mvert mpoly mloopuv) [0..<totvert])"

text \<open>
  An example: a vertex welded by a mirror (flag bit 6 set) whose two face corners share one
  UV island, next to a plain vertex of the same shape.
\<close>

definition welded_vmap :: "nat \<Rightarrow> UvMapVert list" where
  "welded_vmap i =
     (if i < 2 then [\<lparr>uv_f = 0, uv_tfindex = i, uv_separate = True\<rparr>,
                     \<lparr>uv_f = 1, uv_tfindex = i, uv_separate = False\<rparr>]
      else [])"

definition welded_mvert :: "MVert list" where
  "welded_mvert = [\<lparr>mv_flag = 64\<rparr>, \<lparr>mv_flag = 0\<rparr>]"

definition welded_mpoly :: "MPoly list" where
  "welded_mpoly = [\<lparr>loopstart = 0, totloop = 2\<rparr>, \<lparr>loopstart = 2, totloop = 2\<rparr>]"

section \<open>Index resolution on the subdivided topology (subsurf\_ccg.c)\<close>

text \<open>
  Modelled from the spec: the subdivision engine \<open>CCGSubSurf\<close> is an external collaborator
  whose source is not at hand; the code reaches it through accessor functions only. Its
  vertices, edges and faces are kept per handle, and the handles are the base mesh indices
  \<open>0, 1, ...\<close>, so an element pointer (\<open>CCGVert *\<close>, \<open>CCGEdge *\<close>, \<open>CCGFace *\<close>) is modelled by
  the element's index in the engine, and pointer equality by equality of indices. Each
  element has a user-data block of two \<open>int\<close>s: slot 0 holds the element's start index in
  the flattened vertex array, slot 1 its original index in the base mesh. An edge knows its
  two end vertices; a face its vertices and edges in order, edge \<open>S\<close> running from vertex
  \<open>S\<close> to vertex \<open>S + 1\<close> (cyclically). The C \<open>int\<close>s are modelled as unbounded integers.
\<close>

record CCGVert =
  vert_user0 :: int
  vert_user1 :: int

record CCGEdge =
  edge_v0 :: nat
  edge_v1 :: nat
  edge_user0 :: int
  edge_user1 :: int

record CCGFace =
  face_verts :: "nat list"
  face_edges :: "nat list"
  face_user0 :: int
  face_user1 :: int

record CCGSubSurf =
  ss_verts :: "CCGVert list"
  ss_edges :: "CCGEdge list"
  ss_faces :: "CCGFace list"
  ss_gridSize :: nat
  ss_edgeSize :: nat

definition ccgSubSurf_getNumVerts :: "CCGSubSurf \<Rightarrow> nat" where
  "ccgSubSurf_getNumVerts ss = length (ss_verts ss)"

definition ccgSubSurf_getNumEdges :: "CCGSubSurf \<Rightarrow> nat" where
  "ccgSubSurf_getNumEdges ss = length (ss_edges ss)"

definition ccgSubSurf_getNumFaces :: "CCGSubSurf \<Rightarrow> nat" where
  "ccgSubSurf_getNumFaces ss = length (ss_faces ss)"

definition ccgSubSurf_getFaceNumVerts :: "CCGSubSurf \<Rightarrow> nat \<Rightarrow> nat" where
  "ccgSubSurf_getFaceNumVerts ss f = length (face_verts (ss_faces ss ! f))"

definition ccgSubSurf_getFaceVert :: "CCGSubSurf \<Rightarrow> nat \<Rightarrow> nat \<Rightarrow> nat" where
  "ccgSubSurf_getFaceVert ss f S = face_verts (ss_faces ss ! f) ! S"

definition ccgSubSurf_getFaceEdge :: "CCGSubSurf \<Rightarrow> nat \<Rightarrow> nat \<Rightarrow> nat" where
  "ccgSubSurf_getFaceEdge ss f S = face_edges (ss_faces ss ! f) ! S"

definition ccgSubSurf_getEdgeVert0 :: "CCGSubSurf \<Rightarrow> nat \<Rightarrow> nat" where
  "ccgSubSurf_getEdgeVert0 ss e = edge_v0 (ss_edges ss ! e)"

definition ccgSubSurf_getEdgeVert1 :: "CCGSubSurf \<Rightarrow> nat \<Rightarrow> nat" where
  "ccgSubSurf_getEdgeVert1 ss e = edge_v1 (ss_edges ss ! e)"

text \<open>Slot 0 of the user data, as \<open>*((int *) ccgSubSurf_get...UserData(ss, x))\<close> reads it.\<close>

definition vertUserData :: "CCGSubSurf \<Rightarrow> nat \<Rightarrow> int" where
  "vertUserData ss v = vert_user0 (ss_verts ss ! v)"

definition edgeUserData :: "CCGSubSurf \<Rightarrow> nat \<Rightarrow> int" where
  "edgeUserData ss e = edge_user0 (ss_edges ss ! e)"

definition faceUserData :: "CCGSubSurf \<Rightarrow> nat \<Rightarrow> int" where
  "faceUserData ss f = face_user0 (ss_faces ss ! f)"

text \<open>\<open>getEdgeIndex\<close> and \<open>getFaceIndex\<close>, branch by branch as in the source.\<close>

definition getEdgeIndex :: "CCGSubSurf \<Rightarrow> nat \<Rightarrow> int \<Rightarrow> int \<Rightarrow> int" where
  "getEdgeIndex ss e x edgeSize =
     (let v0 = ccgSubSurf_getEdgeVert0 ss e;
          v1 = ccgSubSurf_getEdgeVert1 ss e;
          v0idx = vertUserData ss v0;
          v1idx = vertUserData ss v1;
          edgeBase = edgeUserData ss e
      in if x = 0 then v0idx
         else if x = edgeSize - 1 then v1idx
         else edgeBase + x - 1)"

definition getFaceIndex :: "CCGSubSurf \<Rightarrow> nat \<Rightarrow> nat \<Rightarrow> int \<Rightarrow> int \<Rightarrow> int \<Rightarrow> int \<Rightarrow> int" where
  "getFaceIndex ss f S x y edgeSize gridSize =
     (let faceBase = faceUserData ss f;
          numVerts = ccgSubSurf_getFaceNumVerts ss f
      in if x = gridSize - 1 \<and> y = gridSize - 1 then
           (let v = ccgSubSurf_getFaceVert ss f S in vertUserData ss v)
         else if x = gridSize - 1 then
           (let v = ccgSubSurf_getFaceVert ss f S;
                e = ccgSubSurf_getFaceEdge ss f S;
                edgeBase = edgeUserData ss e
            in if v = ccgSubSurf_getEdgeVert0 ss e
               then edgeBase + (gridSize - 1 - y) - 1
               else edgeBase + (edgeSize - 2 - 1) - ((gridSize - 1 - y) - 1))
         else if y = gridSize - 1 then
           (let v = ccgSubSurf_getFaceVert ss f S;
                e = ccgSubSurf_getFaceEdge ss f ((S + numVerts - 1) mod numVerts);
                edgeBase = edgeUserData ss e
            in if v = ccgSubSurf_getEdgeVert0 ss e
               then edgeBase + (gridSize - 1 - x) - 1
               else edgeBase + (edgeSize - 2 - 1) - ((gridSize - 1 - x) - 1))
         else if x = 0 \<and> y = 0 then faceBase
         else if x = 0 then
           (let S' = (S + numVerts - 1) mod numVerts
            in faceBase + 1 + (gridSize - 2) * int S' + (y - 1))
         else if y = 0 then faceBase + 1 + (gridSize - 2) * int S + (x - 1)
         else faceBase + 1 + (gridSize - 2) * int numVerts
              + int S * (gridSize - 2) * (gridSize - 2) + (y - 1) * (gridSize - 2) + (x - 1))"

text \<open>
  A consistent topology: every face has as many edges as vertices, its handles are present
  in the engine, and its edge \<open>S\<close> is a proper edge (two different ends) joining its
  vertices \<open>S\<close> and \<open>S + 1\<close> in one of the two directions.
\<close>

definition edge_joins :: "CCGSubSurf \<Rightarrow> nat \<Rightarrow> nat \<Rightarrow> nat \<Rightarrow> bool" where
  "edge_joins ss e a b =
     (e < length (ss_edges ss)
      \<and> ccgSubSurf_getEdgeVert0 ss e \<noteq> ccgSubSurf_getEdgeVert1 ss e
      \<and> ((ccgSubSurf_getEdgeVert0 ss e = a \<and> ccgSubSurf_getEdgeVert1 ss e = b)
         \<or> (ccgSubSurf_getEdgeVert0 ss e = b \<and> ccgSubSurf_getEdgeVert1 ss e = a)))"

definition face_ok :: "CCGSubSurf \<Rightarrow> nat \<Rightarrow> bool" where
  "face_ok ss f =
     (let n = ccgSubSurf_getFaceNumVerts ss f in
      f < length (ss_faces ss) \<and> 0 < n \<and> length (face_edges (ss_faces ss ! f)) = n
      \<and> list_all (\<lambda>S. ccgSubSurf_getFaceVert ss f S < length (ss_verts ss)
                       \<and> edge_joins ss (ccgSubSurf_getFaceEdge ss f S)
                            (ccgSubSurf_getFaceVert ss f S)
                            (ccgSubSurf_getFaceVert ss f ((S + 1) mod n)))
                 [0..<n])"

definition consistent_topology :: "CCGSubSurf \<Rightarrow> bool" where
  "consistent_topology ss = list_all (face_ok ss) [0..<length (ss_faces ss)]"

text \<open>
  Where a sample of an edge lies, independently of any face: the sample at distance \<open>d\<close>
  from the end \<open>v\<close> of edge \<open>e\<close> has position \<open>d\<close> counted from the edge's vertex 0 when \<open>v\<close>
  is that vertex, and position \<open>edgeSize - 1 - d\<close> when \<open>v\<close> is the edge's vertex 1.
\<close>

definition edge_pos :: "CCGSubSurf \<Rightarrow> nat \<Rightarrow> nat \<Rightarrow> int \<Rightarrow> int \<Rightarrow> int option" where
  "edge_pos ss e v d edgeSize =
     (if v = ccgSubSurf_getEdgeVert0 ss e then Some d
      else if v = ccgSubSurf_getEdgeVert1 ss e then Some (edgeSize - 1 - d)
      else None)"

text \<open>
  The grid of corner \<open>S\<close> of a face touches two edges of the face. Its boundary \<open>x =
  gridSize - 1\<close> runs along edge \<open>S\<close>, its boundary \<open>y = gridSize - 1\<close> along edge \<open>S - 1\<close>;
  both start at vertex \<open>S\<close>, where \<open>x = y = gridSize - 1\<close>. \<open>side_coords\<close> gives the grid
  coordinates of the boundary sample at distance \<open>d\<close> from that vertex.
\<close>

datatype side = AlongX | AlongY

definition side_edge :: "CCGSubSurf \<Rightarrow> nat \<Rightarrow> nat \<Rightarrow> side \<Rightarrow> nat" where
  "side_edge ss f S sd =
     (case sd of
        AlongX \<Rightarrow> ccgSubSurf_getFaceEdge ss f S
      | AlongY \<Rightarrow> ccgSubSurf_getFaceEdge ss f
                    ((S + ccgSubSurf_getFaceNumVerts ss f - 1) mod ccgSubSurf_getFaceNumVerts ss f))"

definition side_coords :: "int \<Rightarrow> side \<Rightarrow> int \<Rightarrow> int \<times> int" where
  "side_coords gridSize sd d =
     (case sd of
        AlongX \<Rightarrow> (gridSize - 1, gridSize - 1 - d)
      | AlongY \<Rightarrow> (gridSize - 1 - d, gridSize - 1))"

definition boundary_index :: "CCGSubSurf \<Rightarrow> nat \<Rightarrow> nat \<Rightarrow> side \<Rightarrow> int \<Rightarrow> int \<Rightarrow> int \<Rightarrow> int" where
  "boundary_index ss f S sd d edgeSize gridSize =
     (case side_coords gridSize sd d of
        (x, y) \<Rightarrow> getFaceIndex ss f S x y edgeSize gridSize)"

section \<open>Materialization of the flattened mesh (subsurf\_ccg.c, getCCGDerivedMesh)\<close>

text \<open>
  The part of \<open>getCCGDerivedMesh\<close> that numbers the flattened elements: the three loops over
  the faces, the edges and the vertices of the engine, with the counters \<open>vertNum\<close>,
  \<open>edgeNum\<close>, \<open>faceNum\<close>, the start offsets stored in the index maps and in slot 0 of the
  user data, and the original-index layers. The statements that interpolate or copy custom
  data (\<open>DM_interp_vert_data\<close>, \<open>CustomData_interp\<close>, \<open>CustomData_copy_data\<close>,
  \<open>ccg_loops_to_corners\<close>, the face flags) write other arrays and are left out.

  The index maps are filled at \<open>index = 0, 1, ...\<close> in turn, so each is kept as the list of
  the entries written so far; the \<open>face\<close>, \<open>edge\<close> and \<open>vert\<close> members of an entry are the
  element of that handle, that is, the index itself. \<open>ORIGINDEX_NONE\<close> is the sentinel
  for an element without an original (its macro is defined outside the sources at hand,
  as -1).
\<close>

definition ORIGINDEX_NONE :: int where
  "ORIGINDEX_NONE = -1"

record faceMap_entry =
  fm_startVert :: nat
  fm_startEdge :: nat
  fm_startFace :: nat

record edgeMap_entry =
  em_startVert :: nat
  em_startEdge :: nat

text \<open>
  An original-index layer is an \<open>int\<close> array. \<open>vertOrigIndex\<close>, \<open>faceOrigIndex\<close> and
  \<open>polyOrigIndex\<close> are written through a pointer that advances after each write: the
  model keeps the pointer's offset with the array. \<open>edgeOrigIndex\<close> is written by index.
  A layer that the mesh does not have is \<open>None\<close> (the \<open>NULL\<close> pointer).
\<close>

type_synonym layer = "nat \<Rightarrow> int"

record mat_state =
  ccg_ss :: CCGSubSurf
  faceMap :: "faceMap_entry list"
  edgeMap :: "edgeMap_entry list"
  vertMap :: "nat list"
  vertNum :: nat
  edgeNum :: nat
  faceNum :: nat
  loopindex :: nat
  loopindex2 :: nat
  vertOrigIndex :: "(nat \<times> layer) option"
  edgeOrigIndex :: "layer option"
  faceOrigIndex :: "(nat \<times> layer) option"
  polyOrigIndex :: "(nat \<times> layer) option"

text \<open>\<open>if (p) { *p = v; p++; }\<close>\<close>

definition write_next :: "int \<Rightarrow> (nat \<times> layer) option \<Rightarrow> (nat \<times> layer) option" where
  "write_next v p = map_option (\<lambda>(pos, a). (Suc pos, a(pos := v))) p"

text \<open>Writing slot 0 of the user data of an element.\<close>

definition set_faceUserData :: "nat \<Rightarrow> int \<Rightarrow> CCGSubSurf \<Rightarrow> CCGSubSurf" where
  "set_faceUserData f v ss = ss\<lparr>ss_faces := (ss_faces ss)[f := (ss_faces ss ! f)\<lparr>face_user0 := v\<rparr>]\<rparr>"

definition set_edgeUserData :: "nat \<Rightarrow> int \<Rightarrow> CCGSubSurf \<Rightarrow> CCGSubSurf" where
  "set_edgeUserData e v ss = ss\<lparr>ss_edges := (ss_edges ss)[e := (ss_edges ss ! e)\<lparr>edge_user0 := v\<rparr>]\<rparr>"

definition set_vertUserData :: "nat \<Rightarrow> int \<Rightarrow> CCGSubSurf \<Rightarrow> CCGSubSurf" where
  "set_vertUserData v x ss = ss\<lparr>ss_verts := (ss_verts ss)[v := (ss_verts ss ! v)\<lparr>vert_user0 := x\<rparr>]\<rparr>"

text \<open>Slot 1 of the user data: \<open>ccgDM_getVertMapIndex\<close> and \<open>ccgDM_getEdgeMapIndex\<close>.\<close>

definition ccgDM_getVertMapIndex :: "CCGSubSurf \<Rightarrow> nat \<Rightarrow> int" where
  "ccgDM_getVertMapIndex ss v = vert_user1 (ss_verts ss ! v)"

definition ccgDM_getEdgeMapIndex :: "CCGSubSurf \<Rightarrow> nat \<Rightarrow> int" where
  "ccgDM_getEdgeMapIndex ss e = edge_user1 (ss_edges ss ! e)"

text \<open>
  One flattened vertex: its original index is written when the layer exists, and
  \<open>vertNum\<close> advances.
\<close>

definition emit_vert :: "int \<Rightarrow> mat_state \<Rightarrow> mat_state" where
  "emit_vert orig st =
     st\<lparr>vertOrigIndex := write_next orig (vertOrigIndex st), vertNum := Suc (vertNum st)\<rparr>"

text \<open>
  One quad of a face grid: four loops, the tessellated face's index into the polygons, the
  polygon's original index, and \<open>faceNum\<close> advances.
\<close>

definition emit_quad :: "int \<Rightarrow> mat_state \<Rightarrow> mat_state" where
  "emit_quad polyOrig st =
     st\<lparr>loopindex2 := loopindex2 st + 4,
        faceOrigIndex := write_next (int (faceNum st)) (faceOrigIndex st),
        polyOrigIndex := write_next polyOrig (polyOrigIndex st),
        faceNum := Suc (faceNum st)\<rparr>"

text \<open>\<open>edgeOrigIndex[edgeNum + i] = v\<close>, when the layer exists.\<close>

definition write_edgeOrigIndex :: "int \<Rightarrow> nat \<Rightarrow> mat_state \<Rightarrow> mat_state" where
  "write_edgeOrigIndex v i st =
     st\<lparr>edgeOrigIndex := map_option (\<lambda>a. a(edgeNum st + i := v)) (edgeOrigIndex st)\<rparr>"

text \<open>
  The body of the loop over the faces (lines 3853 to 4001). \<open>base_polyOrigIndex\<close> is the
  original-index layer of the base polygons, if the base mesh has one.
\<close>

definition face_body :: "int list option \<Rightarrow> nat \<Rightarrow> mat_state \<Rightarrow> mat_state" where
  "face_body base_polyOrigIndex index st =
     (let ss = ccg_ss st;
          gridSize = ss_gridSize ss;
          gridFaces = gridSize - 1;
          gridSideEdges = gridSize - 1;
          gridInternalEdges = (gridSideEdges - 1) * gridSideEdges * 2;
          f = index;
          numVerts = ccgSubSurf_getFaceNumVerts ss f;
          numFinalEdges = numVerts * (gridSideEdges + gridInternalEdges);
          origIndex = f;
          st1 = st\<lparr>faceMap := faceMap st @ [\<lparr>fm_startVert = vertNum st,
                                                fm_startEdge = edgeNum st,
                                                fm_startFace = faceNum st\<rparr>],
                    ccg_ss := set_faceUserData f (int (vertNum st)) ss,
                    loopindex := loopindex st + numVerts\<rparr>;
          st2 = emit_vert ORIGINDEX_NONE st1;
          st3 = fold (\<lambda>s. fold (\<lambda>x. emit_vert ORIGINDEX_NONE) [1..<gridFaces]) [0..<numVerts] st2;
          st4 = fold (\<lambda>s. fold (\<lambda>y. fold (\<lambda>x. emit_vert ORIGINDEX_NONE) [1..<gridFaces])
                                 [1..<gridFaces])
                     [0..<numVerts] st3;
          st5 = fold (write_edgeOrigIndex ORIGINDEX_NONE) [0..<numFinalEdges] st4;
          polyOrig = (case base_polyOrigIndex of
                        Some base \<Rightarrow> base ! origIndex
                      | None \<Rightarrow> int origIndex);
          st6 = fold (\<lambda>s. fold (\<lambda>y. fold (\<lambda>x. emit_quad polyOrig) [0..<gridFaces])
                                 [0..<gridFaces])
                     [0..<numVerts] st5
      in st6\<lparr>edgeNum := edgeNum st6 + numFinalEdges\<rparr>)"

text \<open>The body of the loop over the edges (lines 4003 to 4052).\<close>

definition edge_body :: "nat \<Rightarrow> mat_state \<Rightarrow> mat_state" where
  "edge_body index st =
     (let ss = ccg_ss st;
          edgeSize = ss_edgeSize ss;
          e = index;
          numFinalEdges = edgeSize - 1;
          mapIndex = ccgDM_getEdgeMapIndex ss e;
          st1 = st\<lparr>edgeMap := edgeMap st @ [\<lparr>em_startVert = vertNum st,
                                                em_startEdge = edgeNum st\<rparr>],
                    ccg_ss := set_edgeUserData e (int (vertNum st)) ss\<rparr>;
          st2 = fold (\<lambda>x. emit_vert ORIGINDEX_NONE) [1..<edgeSize - 1] st1;
          st3 = fold (write_edgeOrigIndex mapIndex) [0..<numFinalEdges] st2
      in st3\<lparr>edgeNum := edgeNum st3 + numFinalEdges\<rparr>)"

text \<open>The body of the loop over the vertices (lines 4064 to 4083).\<close>

definition vert_body :: "nat \<Rightarrow> mat_state \<Rightarrow> mat_state" where
  "vert_body index st =
     (let ss = ccg_ss st;
          v = index;
          mapIndex = ccgDM_getVertMapIndex ss v;
          st1 = st\<lparr>vertMap := vertMap st @ [vertNum st],
                    ccg_ss := set_vertUserData v (int (vertNum st)) ss\<rparr>
      in emit_vert mapIndex st1)"

text \<open>
  The state before the loops: the counters at zero, the maps empty, each layer either
  absent or present with its pointer at the start.
\<close>

definition mat_init ::
  "CCGSubSurf \<Rightarrow> layer option \<Rightarrow> layer option \<Rightarrow> layer option \<Rightarrow> layer option \<Rightarrow> mat_state" where
  "mat_init ss vlayer elayer flayer player =
     \<lparr>ccg_ss = ss, faceMap = [], edgeMap = [], vertMap = [],
      vertNum = 0, edgeNum = 0, faceNum = 0, loopindex = 0, loopindex2 = 0,
      vertOrigIndex = map_option (Pair 0) vlayer,
      edgeOrigIndex = elayer,
      faceOrigIndex = map_option (Pair 0) flayer,
      polyOrigIndex = map_option (Pair 0) player\<rparr>"

definition getCCGDerivedMesh ::
  "CCGSubSurf \<Rightarrow> int list option \<Rightarrow> layer option \<Rightarrow> layer option \<Rightarrow> layer option
   \<Rightarrow> layer option \<Rightarrow> mat_state" where
  "getCCGDerivedMesh ss base_polyOrigIndex vlayer elayer flayer player =
     (let totvert = ccgSubSurf_getNumVerts ss;
          totedge = ccgSubSurf_getNumEdges ss;
          totface = ccgSubSurf_getNumFaces ss;
          st0 = mat_init ss vlayer elayer flayer player;
          st1 = fold (face_body base_polyOrigIndex) [0..<totface] st0;
          st2 = fold edge_body [0..<totedge] st1
      in fold vert_body [0..<totvert] st2)"

text \<open>
  The counts the claims speak of: the flattened vertices, edges and quads that one face
  owns, and the running totals over the faces before a given one.
\<close>

definition face_vert_count :: "CCGSubSurf \<Rightarrow> nat \<Rightarrow> nat" where
  "face_vert_count ss f =
     1 + ccgSubSurf_getFaceNumVerts ss f * (ss_gridSize ss - 2)
       + ccgSubSurf_getFaceNumVerts ss f * ((ss_gridSize ss - 2) * (ss_gridSize ss - 2))"

definition face_edge_count :: "CCGSubSurf \<Rightarrow> nat \<Rightarrow> nat" where
  "face_edge_count ss f =
     ccgSubSurf_getFaceNumVerts ss f
       * ((ss_gridSize ss - 1) + (ss_gridSize ss - 1 - 1) * (ss_gridSize ss - 1) * 2)"

definition face_quad_count :: "CCGSubSurf \<Rightarrow> nat \<Rightarrow> nat" where
  "face_quad_count ss f =
     ccgSubSurf_getFaceNumVerts ss f * ((ss_gridSize ss - 1) * (ss_gridSize ss - 1))"

definition verts_before :: "CCGSubSurf \<Rightarrow> nat \<Rightarrow> nat" where
  "verts_before ss k = sum_list (map (face_vert_count ss) [0..<k])"

definition edges_before :: "CCGSubSurf \<Rightarrow> nat \<Rightarrow> nat" where
  "edges_before ss k = sum_list (map (face_edge_count ss) [0..<k])"

definition quads_before :: "CCGSubSurf \<Rightarrow> nat \<Rightarrow> nat" where
  "quads_before ss k = sum_list (map (face_quad_count ss) [0..<k])"

text \<open>
  What a run of writes leaves in a layer: \<open>write_run v k\<close> is \<open>k\<close> writes of \<open>v\<close> through an
  advancing pointer, \<open>count_run c k\<close> is \<open>k\<close> such writes of the values \<open>c, c + 1, ...\<close>, and
  \<open>fill_range v lo k\<close> is the writes of \<open>v\<close> at the indices \<open>lo, ..., lo + k - 1\<close>.
\<close>

definition write_run :: "int \<Rightarrow> nat \<Rightarrow> (nat \<times> layer) option \<Rightarrow> (nat \<times> layer) option" where
  "write_run v k p =
     map_option (\<lambda>(pos, a). (pos + k, \<lambda>n. if pos \<le> n \<and> n < pos + k then v else a n)) p"

definition count_run :: "nat \<Rightarrow> nat \<Rightarrow> (nat \<times> layer) option \<Rightarrow> (nat \<times> layer) option" where
  "count_run c k p =
     map_option (\<lambda>(pos, a). (pos + k, \<lambda>n. if pos \<le> n \<and> n < pos + k
                                             then int (c + (n - pos)) else a n)) p"

definition fill_range :: "int \<Rightarrow> nat \<Rightarrow> nat \<Rightarrow> layer option \<Rightarrow> layer option" where
  "fill_range v lo k l = map_option (\<lambda>a n. if lo \<le> n \<and> n < lo + k then v else a n) l"

text \<open>The original index that the quads of base face \<open>f\<close> receive.\<close>

definition poly_orig :: "int list option \<Rightarrow> nat \<Rightarrow> int" where
  "poly_orig base_polyOrigIndex f =
     (case base_polyOrigIndex of Some base \<Rightarrow> base ! f | None \<Rightarrow> int f)"

text \<open>
  The states between the loops, written out: after the first \<open>k\<close> faces, after all the faces
  and the first \<open>k\<close> edges, and after all the faces and edges and the first \<open>k\<close> vertices.
\<close>

definition loops_before :: "CCGSubSurf \<Rightarrow> nat \<Rightarrow> nat" where
  "loops_before ss k = sum_list (map (ccgSubSurf_getFaceNumVerts ss) [0..<k])"

definition after_faces ::
  "CCGSubSurf \<Rightarrow> int list option \<Rightarrow> layer option \<Rightarrow> layer option \<Rightarrow> layer option
   \<Rightarrow> layer option \<Rightarrow> nat \<Rightarrow> mat_state" where
  "after_faces ss base vlayer elayer flayer player k =
     \<lparr>ccg_ss = fold (\<lambda>j. set_faceUserData j (int (verts_before ss j))) [0..<k] ss,
      faceMap = map (\<lambda>j. \<lparr>fm_startVert = verts_before ss j, fm_startEdge = edges_before ss j,
                           fm_startFace = quads_before ss j\<rparr>) [0..<k],
      edgeMap = [], vertMap = [],
      vertNum = verts_before ss k, edgeNum = edges_before ss k, faceNum = quads_before ss k,
      loopindex = loops_before ss k, loopindex2 = 4 * quads_before ss k,
      vertOrigIndex = write_run ORIGINDEX_NONE (verts_before ss k) (map_option (Pair 0) vlayer),
      edgeOrigIndex = fill_range ORIGINDEX_NONE 0 (edges_before ss k) elayer,
      faceOrigIndex = count_run 0 (quads_before ss k) (map_option (Pair 0) flayer),
      polyOrigIndex = fold (\<lambda>j. write_run (poly_orig base j) (face_quad_count ss j)) [0..<k]
                        (map_option (Pair 0) player)\<rparr>"

definition after_edges :: "CCGSubSurf \<Rightarrow> mat_state \<Rightarrow> nat \<Rightarrow> mat_state" where
  "after_edges ss stF k =
     stF\<lparr>ccg_ss := fold (\<lambda>j. set_edgeUserData j (int (vertNum stF + j * (ss_edgeSize ss - 2))))
                     [0..<k] (ccg_ss stF),
         edgeMap := map (\<lambda>j. \<lparr>em_startVert = vertNum stF + j * (ss_edgeSize ss - 2),
                               em_startEdge = edgeNum stF + j * (ss_edgeSize ss - 1)\<rparr>) [0..<k],
         vertNum := vertNum stF + k * (ss_edgeSize ss - 2),
         edgeNum := edgeNum stF + k * (ss_edgeSize ss - 1),
         vertOrigIndex := write_run ORIGINDEX_NONE (k * (ss_edgeSize ss - 2)) (vertOrigIndex stF),
         edgeOrigIndex := fold (\<lambda>j. fill_range (ccgDM_getEdgeMapIndex ss j)
                                       (edgeNum stF + j * (ss_edgeSize ss - 1))
                                       (ss_edgeSize ss - 1))
                            [0..<k] (edgeOrigIndex stF)\<rparr>"

definition after_verts :: "CCGSubSurf \<Rightarrow> mat_state \<Rightarrow> nat \<Rightarrow> mat_state" where
  "after_verts ss stE k =
     stE\<lparr>ccg_ss := fold (\<lambda>j. set_vertUserData j (int (vertNum stE + j))) [0..<k] (ccg_ss stE),
         vertMap := map (\<lambda>j. vertNum stE + j) [0..<k],
         vertNum := vertNum stE + k,
         vertOrigIndex := fold (\<lambda>j. write_next (ccgDM_getVertMapIndex ss j)) [0..<k]
                            (vertOrigIndex stE)\<rparr>"

text \<open>
  The start offsets of consecutive ranges with the given lengths, from \<open>s\<close> on, closed by
  the end of the last range.
\<close>

fun offsets :: "nat \<Rightarrow> nat list \<Rightarrow> nat list" where
  "offsets s [] = [s]"
| "offsets s (c # cs) = s # offsets (s + c) cs"

text \<open>
  An example: two quads that share the edge between the vertices 1 and 2, the first running
  along it from 1 to 2 and the second from 2 to 1, at subdivision level 2 (grids of 3 by 3,
  edges of 5 samples). Slot 1 of each user-data block holds the element's own index; slot 0
  is still unset.
\<close>

definition two_quads :: CCGSubSurf where
  "two_quads =
     \<lparr>ss_verts = [\<lparr>vert_user0 = 0, vert_user1 = 0\<rparr>, \<lparr>vert_user0 = 0, vert_user1 = 1\<rparr>,
                  \<lparr>vert_user0 = 0, vert_user1 = 2\<rparr>, \<lparr>vert_user0 = 0, vert_user1 = 3\<rparr>,
                  \<lparr>vert_user0 = 0, vert_user1 = 4\<rparr>, \<lparr>vert_user0 = 0, vert_user1 = 5\<rparr>],
      ss_edges = [\<lparr>edge_v0 = 0, edge_v1 = 1, edge_user0 = 0, edge_user1 = 0\<rparr>,
                  \<lparr>edge_v0 = 1, edge_v1 = 2, edge_user0 = 0, edge_user1 = 1\<rparr>,
                  \<lparr>edge_v0 = 2, edge_v1 = 3, edge_user0 = 0, edge_user1 = 2\<rparr>,
                  \<lparr>edge_v0 = 3, edge_v1 = 0, edge_user0 = 0, edge_user1 = 3\<rparr>,
                  \<lparr>edge_v0 = 1, edge_v1 = 4, edge_user0 = 0, edge_user1 = 4\<rparr>,
                  \<lparr>edge_v0 = 4, edge_v1 = 5, edge_user0 = 0, edge_user1 = 5\<rparr>,
                  \<lparr>edge_v0 = 5, edge_v1 = 2, edge_user0 = 0, edge_user1 = 6\<rparr>],
      ss_faces = [\<lparr>face_verts = [0, 1, 2, 3], face_edges = [0, 1, 2, 3],
                   face_user0 = 0, face_user1 = 0\<rparr>,
                  \<lparr>face_verts = [1, 4, 5, 2], face_edges = [4, 5, 6, 1],
                   face_user0 = 0, face_user1 = 1\<rparr>],
      ss_gridSize = 3, ss_edgeSize = 5\<rparr>"

definition zero_layer :: layer where
  "zero_layer = (\<lambda>_. 0)"

section \<open>The weight table of a materialization pass (subsurf\_ccg.c, getCCGDerivedMesh)\<close>



section \<open>The lazily built shared caches (subsurf\_ccg.c)\<close>

text \<open>
  Modelled from the spec: the read-write lock behind \<open>BLI_rw_mutex_lock\<close> and
  \<open>BLI_rw_mutex_unlock\<close> is outside the sources at hand; it admits many readers or a single
  writer. The lock records the thread that holds it for writing and the threads that hold
  it for reading, threads being numbered. A write lock is granted when no thread holds the
  lock, a read lock when no thread holds it for writing; \<open>None\<close> says that the caller has to
  wait.
\<close>

datatype lock_mode = THREAD_LOCK_READ | THREAD_LOCK_WRITE

record ThreadRWMutex =
  rw_writer :: "nat option"
  rw_readers :: "nat set"

definition BLI_RWLOCK_INITIALIZER :: ThreadRWMutex where
  "BLI_RWLOCK_INITIALIZER = \<lparr>rw_writer = None, rw_readers = {}\<rparr>"

definition BLI_rw_mutex_lock :: "nat \<Rightarrow> lock_mode \<Rightarrow> ThreadRWMutex \<Rightarrow> ThreadRWMutex option" where
  "BLI_rw_mutex_lock t mode m =
     (case mode of
        THREAD_LOCK_WRITE \<Rightarrow>
          if rw_writer m = None \<and> rw_readers m = {} then Some (m\<lparr>rw_writer := Some t\<rparr>)
          else None
      | THREAD_LOCK_READ \<Rightarrow>
          if rw_writer m = None then Some (m\<lparr>rw_readers := insert t (rw_readers m)\<rparr>)
          else None)"

definition BLI_rw_mutex_unlock :: "nat \<Rightarrow> ThreadRWMutex \<Rightarrow> ThreadRWMutex" where
  "BLI_rw_mutex_unlock t m =
     (if rw_writer m = Some t then m\<lparr>rw_writer := None\<rparr>
      else m\<lparr>rw_readers := rw_readers m - {t}\<rparr>)"

subsection \<open>The edge hash of ccgDM\_copyFinalLoopArray\<close>

text \<open>
  Modelled from the spec: the edge hash (\<open>BLI_edgehash_new_ex\<close>, \<open>BLI_edgehash_insert\<close>) is
  outside the sources at hand; it maps a pair of vertices, in either order, to an edge
  index. \<open>edgehash_fill\<close> is the loop of lines 1339 to 1341 over the edge array.
\<close>

record MEdge =
  medge_v1 :: nat
  medge_v2 :: nat

type_synonym EdgeHash = "nat \<times> nat \<Rightarrow> nat option"

definition BLI_edgehash_insert :: "EdgeHash \<Rightarrow> nat \<Rightarrow> nat \<Rightarrow> nat \<Rightarrow> EdgeHash" where
  "BLI_edgehash_insert eh v0 v1 val = eh((min v0 v1, max v0 v1) \<mapsto> val)"

definition edgehash_fill :: "MEdge list \<Rightarrow> EdgeHash \<Rightarrow> EdgeHash" where
  "edgehash_fill medge eh =
     fold (\<lambda>i h. BLI_edgehash_insert h (medge_v1 (medge ! i)) (medge_v2 (medge ! i)) i)
          [0..<length medge] eh"

text \<open>
  The places of a thread in \<open>ccgDM_copyFinalLoopArray\<close> (lines 1331 to 1389): the first test
  of \<open>ccgdm->ehash\<close>, outside the lock; waiting for the write lock; the second test, under
  the write lock; the creation of the hash, which assigns \<open>ccgdm->ehash\<close>; the loop that
  fills it; the release of the write lock; waiting for the read lock; the loops that look
  edges up; the release of the read lock; and the return.
\<close>

datatype loop_pc =
  Loop_test | Loop_wlock | Loop_retest | Loop_new | Loop_fill | Loop_wunlock
  | Loop_rlock | Loop_lookup | Loop_runlock | Loop_return

text \<open>
  The shared state: the lock, the field \<open>ccgdm->ehash\<close> (\<open>None\<close> for \<open>NULL\<close>), the number of
  hashes created so far, the place of each thread, and the hash each thread has looked
  edges up in.
\<close>

record loops_state =
  loops_cache_rwlock :: ThreadRWMutex
  ccgdm_ehash :: "EdgeHash option"
  ehash_created :: nat
  loop_at :: "nat \<Rightarrow> loop_pc"
  loop_seen :: "nat \<Rightarrow> EdgeHash option"

definition loops_init :: loops_state where
  "loops_init = \<lparr>loops_cache_rwlock = BLI_RWLOCK_INITIALIZER, ccgdm_ehash = None,
                  ehash_created = 0, loop_at = (\<lambda>t. Loop_test), loop_seen = (\<lambda>t. None)\<rparr>"

definition loop_goto :: "nat \<Rightarrow> loop_pc \<Rightarrow> loops_state \<Rightarrow> loops_state" where
  "loop_goto t pc s = s\<lparr>loop_at := (loop_at s)(t := pc)\<rparr>"

text \<open>One step of thread \<open>t\<close> in \<open>ccgDM_copyFinalLoopArray\<close>, on the edge array \<open>medge\<close>.\<close>

definition ccgDM_copyFinalLoopArray_step :: "MEdge list \<Rightarrow> nat \<Rightarrow> loops_state \<Rightarrow> loops_state" where
  "ccgDM_copyFinalLoopArray_step medge t s =
     (case loop_at s t of
        Loop_test \<Rightarrow>
          if ccgdm_ehash s = None then loop_goto t Loop_wlock s else loop_goto t Loop_rlock s
      | Loop_wlock \<Rightarrow>
          (case BLI_rw_mutex_lock t THREAD_LOCK_WRITE (loops_cache_rwlock s) of
             None \<Rightarrow> s
           | Some m \<Rightarrow> loop_goto t Loop_retest (s\<lparr>loops_cache_rwlock := m\<rparr>))
      | Loop_retest \<Rightarrow>
          if ccgdm_ehash s = None then loop_goto t Loop_new s else loop_goto t Loop_wunlock s
      | Loop_new \<Rightarrow>
          loop_goto t Loop_fill
            (s\<lparr>ccgdm_ehash := Some (\<lambda>k. None), ehash_created := ehash_created s + 1\<rparr>)
      | Loop_fill \<Rightarrow>
          loop_goto t Loop_wunlock
            (s\<lparr>ccgdm_ehash := map_option (edgehash_fill medge) (ccgdm_ehash s)\<rparr>)
      | Loop_wunlock \<Rightarrow>
          loop_goto t Loop_rlock
            (s\<lparr>loops_cache_rwlock := BLI_rw_mutex_unlock t (loops_cache_rwlock s)\<rparr>)
      | Loop_rlock \<Rightarrow>
          (case BLI_rw_mutex_lock t THREAD_LOCK_READ (loops_cache_rwlock s) of
             None \<Rightarrow> s
           | Some m \<Rightarrow> loop_goto t Loop_lookup (s\<lparr>loops_cache_rwlock := m\<rparr>))
      | Loop_lookup \<Rightarrow>
          loop_goto t Loop_runlock (s\<lparr>loop_seen := (loop_seen s)(t := ccgdm_ehash s)\<rparr>)
      | Loop_runlock \<Rightarrow>
          loop_goto t Loop_return
            (s\<lparr>loops_cache_rwlock := BLI_rw_mutex_unlock t (loops_cache_rwlock s)\<rparr>)
      | Loop_return \<Rightarrow> s)"

text \<open>
  A schedule is the list of the threads in the order in which they take their steps; any
  number of threads may call the function.
\<close>

definition loops_run :: "MEdge list \<Rightarrow> nat list \<Rightarrow> loops_state" where
  "loops_run medge schedule = fold (ccgDM_copyFinalLoopArray_step medge) schedule loops_init"

text \<open>
  What every schedule keeps true. A thread between the grant of the write lock and its
  release is the one that holds it; at most one hash has been created, the field is empty
  exactly when none has, and it is empty when a thread is about to create one. The second
  invariant is about the readers: a thread that looks edges up holds the read lock, readers
  and a writer exclude each other, the hash is either empty (while it is being filled) or
  complete, and every thread that has looked edges up has seen the complete hash.
\<close>

definition loop_holds_write :: "loop_pc \<Rightarrow> bool" where
  "loop_holds_write pc = (pc = Loop_retest \<or> pc = Loop_new \<or> pc = Loop_fill \<or> pc = Loop_wunlock)"

definition loops_inv :: "loops_state \<Rightarrow> bool" where
  "loops_inv s =
     ((\<forall>t. loop_holds_write (loop_at s t) \<longrightarrow> rw_writer (loops_cache_rwlock s) = Some t)
    \<and> ehash_created s \<le> 1
    \<and> ((ccgdm_ehash s = None) = (ehash_created s = 0))
    \<and> (\<forall>t. loop_at s t = Loop_new \<longrightarrow> ccgdm_ehash s = None))"

definition loop_holds_read :: "loop_pc \<Rightarrow> bool" where
  "loop_holds_read pc = (pc = Loop_lookup \<or> pc = Loop_runlock)"

definition loop_past_build :: "loop_pc \<Rightarrow> bool" where
  "loop_past_build pc = (pc = Loop_wunlock \<or> pc = Loop_rlock \<or> pc = Loop_lookup)"

definition loops_seen_inv :: "MEdge list \<Rightarrow> loops_state \<Rightarrow> bool" where
  "loops_seen_inv medge s =
     ((\<forall>t. loop_holds_read (loop_at s t) \<longrightarrow> t \<in> rw_readers (loops_cache_rwlock s))
    \<and> (rw_writer (loops_cache_rwlock s) \<noteq> None \<longrightarrow> rw_readers (loops_cache_rwlock s) = {})
    \<and> (\<forall>t. loop_at s t = Loop_fill \<longrightarrow> ccgdm_ehash s = Some (\<lambda>k. None))
    \<and> ((\<forall>t. loop_at s t \<noteq> Loop_fill)
          \<longrightarrow> ccgdm_ehash s = None \<or> ccgdm_ehash s = Some (edgehash_fill medge (\<lambda>k. None)))
    \<and> (\<forall>t. loop_past_build (loop_at s t) \<longrightarrow> ccgdm_ehash s \<noteq> None)
    \<and> (\<forall>t. loop_at s t = Loop_runlock \<or> loop_at s t = Loop_return
          \<longrightarrow> loop_seen s t = Some (edgehash_fill medge (\<lambda>k. None))))"

subsection \<open>The original-index layer of ccgDM\_get\_vert\_data\_layer\<close>










section \<open>Verified properties\<close>

subsection \<open>Buffer pool\<close>

lemma scan_pool_exact:
  "i \<le> e \<Longrightarrow> e < length bufs \<Longrightarrow> exact_fit sz v (bufs ! e)
   \<Longrightarrow> \<forall>k. i \<le> k \<and> k < e \<longrightarrow> \<not> exact_fit sz v (bufs ! k)
   \<Longrightarrow> scan_pool bufs sz v i bf = Some e"
proof (induction "e - i" arbitrary: i bf)
  case 0
  then have "i = e" by simp
  with 0 show ?case
    by (subst scan_pool.simps) (simp add: exact_fit_def Let_def)
next
  case (Suc d)
  then have lt: "i < e" "Suc i \<le> e" "d = e - Suc i" "i < length bufs" by simp_all
  with Suc.prems have ne: "\<not> exact_fit sz v (bufs ! i)" by simp
  have rest: "\<forall>k. Suc i \<le> k \<and> k < e \<longrightarrow> \<not> exact_fit sz v (bufs ! k)"
    using Suc.prems by simp
  have step: "scan_pool bufs sz v (Suc i) bf' = Some e" for bf'
    using Suc.hyps(1)[OF lt(3) lt(2) Suc.prems(2,3) rest] .
  show ?case
    using ne lt(4) step
    by (subst scan_pool.simps) (auto simp: exact_fit_def Let_def)
qed

lemma best_upto_step:
  assumes inv: "best_upto bufs sz v i bf" and il: "i < length bufs"
    and ne: "\<not> exact_fit sz v (bufs ! i)"
  shows "best_upto bufs sz v (Suc i)
           (if loose_fit sz v (bufs ! i) \<and> (bf = None \<or> bufsize_of (bufs ! the bf) > bufsize_of (bufs ! i))
            then Some i else bf)"
proof (cases bf)
  case None
  with inv show ?thesis
    by (auto simp: best_upto_def less_Suc_eq)
next
  case (Some j)
  with inv show ?thesis
    by (auto simp: best_upto_def less_Suc_eq not_less)
qed

lemma scan_pool_loose:
  "\<forall>k. i \<le> k \<and> k < length bufs \<longrightarrow> \<not> exact_fit sz v (bufs ! k)
   \<Longrightarrow> i \<le> length bufs \<Longrightarrow> best_upto bufs sz v i bf
   \<Longrightarrow> best_upto bufs sz v (length bufs) (scan_pool bufs sz v i bf)"
proof (induction "length bufs - i" arbitrary: i bf)
  case 0
  then have "i = length bufs" by simp
  with 0 show ?case by (subst scan_pool.simps) simp
next
  case (Suc d)
  then have il: "i < length bufs" "Suc i \<le> length bufs" "d = length bufs - Suc i" by simp_all
  have ne: "\<not> exact_fit sz v (bufs ! i)" using Suc.prems(1) il by simp
  have rest: "\<forall>k. Suc i \<le> k \<and> k < length bufs \<longrightarrow> \<not> exact_fit sz v (bufs ! k)"
    using Suc.prems(1) by simp
  let ?bf' = "if loose_fit sz v (bufs ! i) \<and> (bf = None \<or> bufsize_of (bufs ! the bf) > bufsize_of (bufs ! i))
            then Some i else bf"
  have inv': "best_upto bufs sz v (Suc i) ?bf'"
    by (rule best_upto_step[OF Suc.prems(3) il(1) ne])
  have eq: "scan_pool bufs sz v i bf = scan_pool bufs sz v (Suc i) ?bf'"
    using ne il(1)
    by (subst scan_pool.simps) (auto simp: exact_fit_def loose_fit_def Let_def)
  show ?case
    unfolding eq by (rule Suc.hyps(1)[OF il(3) rest il(2) inv'])
qed


lemma trim_pool_eq:
  "trim_pool (pool, del) =
     (pool\<lparr>buffers := take (MAX_FREE_GPU_BUFFERS - 1) (buffers pool)\<rparr>,
      drop (MAX_FREE_GPU_BUFFERS - 1) (buffers pool) @ del)"
proof (induction "length (buffers pool)" arbitrary: pool del)
  case 0
  then show ?case
    by (subst trim_pool.simps) (simp add: totbuf_def MAX_FREE_GPU_BUFFERS_def)
next
  case (Suc n)
  show ?case
  proof (cases "totbuf pool \<ge> MAX_FREE_GPU_BUFFERS")
    case False
    then show ?thesis
      by (subst trim_pool.simps) (simp add: totbuf_def MAX_FREE_GPU_BUFFERS_def)
  next
    case True
    let ?bs = "buffers pool"
    have ne: "?bs \<noteq> []" using Suc.hyps(2) by auto
    have len: "length ?bs \<ge> 8" using True by (simp add: totbuf_def MAX_FREE_GPU_BUFFERS_def)
    have dl: "gpu_buffer_pool_delete_last (pool, del)
              = (pool\<lparr>buffers := butlast ?bs\<rparr>, last ?bs # del)"
      using ne by (simp add: gpu_buffer_pool_delete_last_def totbuf_def)
    have n: "n = length (buffers (pool\<lparr>buffers := butlast ?bs\<rparr>))"
      using Suc.hyps(2) by simp
    have tk: "take 7 (butlast ?bs) = take 7 ?bs"
      using len by (simp add: take_butlast)
    have dr: "drop 7 ?bs = drop 7 (butlast ?bs) @ [last ?bs]"
    proof -
      have "drop 7 ?bs = drop 7 (butlast ?bs @ [last ?bs])" using ne by simp
      also have "\<dots> = drop 7 (butlast ?bs) @ [last ?bs]" using len by simp
      finally show ?thesis .
    qed
    have "trim_pool (pool, del) = trim_pool (pool\<lparr>buffers := butlast ?bs\<rparr>, last ?bs # del)"
      using True dl by (subst trim_pool.simps) simp
    also have "\<dots> = (pool\<lparr>buffers := take 7 ?bs\<rparr>, drop 7 ?bs @ del)"
      unfolding Suc.hyps(1)[OF n] using tk dr by (simp add: MAX_FREE_GPU_BUFFERS_def)
    finally show ?thesis by (simp add: MAX_FREE_GPU_BUFFERS_def)
  qed
qed

lemma half_less_iff: "(b :: 64 word) div 2 < s \<longleftrightarrow> unat b < 2 * unat s"
proof -
  have "unat (b div 2) = unat b div 2" by (simp add: unat_div)
  then show ?thesis by (auto simp: word_less_nat_alt)
qed

lemma gpu_buffer_alloc_intern_exact:
  assumes sz: "sz \<noteq> 0" and gp: "gpu_get_global_buffer_pool w = (pool, w1)"
    and ex: "\<exists>e<totbuf pool. exact_fit sz v (buffers pool ! e)"
  shows "\<exists>e<totbuf pool. exact_fit sz v (buffers pool ! e)
           \<and> (\<forall>k<e. \<not> exact_fit sz v (buffers pool ! k))
           \<and> gpu_buffer_alloc_intern sz v w =
               (Some (buffers pool ! e),
                w1\<lparr>gpu_buffer_pool :=
                     Some (pool\<lparr>buffers := take e (buffers pool) @ drop (Suc e) (buffers pool)\<rparr>)\<rparr>)"
proof -
  let ?P = "\<lambda>e. e < totbuf pool \<and> exact_fit sz v (buffers pool ! e)"
  define e where "e = (LEAST e. ?P e)"
  from ex have "\<exists>e. ?P e" by blast
  then have Pe: "?P e" unfolding e_def by (rule LeastI_ex)
  have least: "\<not> ?P k" if "k < e" for k
    using that not_less_Least unfolding e_def by blast
  have nex: "\<forall>k. 0 \<le> k \<and> k < e \<longrightarrow> \<not> exact_fit sz v (buffers pool ! k)"
    using least Pe by (auto simp: totbuf_def)
  have sc: "scan_pool (buffers pool) sz v 0 None = Some e"
    using Pe nex by (intro scan_pool_exact) (auto simp: totbuf_def)
  have "gpu_buffer_alloc_intern sz v w =
          (Some (buffers pool ! e),
           w1\<lparr>gpu_buffer_pool :=
                Some (pool\<lparr>buffers := take e (buffers pool) @ drop (Suc e) (buffers pool)\<rparr>)\<rparr>)"
    using sz gp sc Pe
    by (simp add: gpu_buffer_alloc_intern_def gpu_buffer_pool_remove_index_def)
  with Pe nex show ?thesis by auto
qed

lemma gpu_buffer_alloc_intern_loose:
  assumes sz: "sz \<noteq> 0" and gp: "gpu_get_global_buffer_pool w = (pool, w1)"
    and nex: "\<forall>e<totbuf pool. \<not> exact_fit sz v (buffers pool ! e)"
    and lo: "\<exists>j<totbuf pool. loose_fit sz v (buffers pool ! j)"
  shows "\<exists>j<totbuf pool. loose_fit sz v (buffers pool ! j)
           \<and> (\<forall>k<totbuf pool. loose_fit sz v (buffers pool ! k)
                  \<longrightarrow> bufsize_of (buffers pool ! j) \<le> bufsize_of (buffers pool ! k))
           \<and> (\<forall>k<j. loose_fit sz v (buffers pool ! k)
                  \<longrightarrow> bufsize_of (buffers pool ! j) < bufsize_of (buffers pool ! k))
           \<and> gpu_buffer_alloc_intern sz v w =
               (Some (buffers pool ! j),
                w1\<lparr>gpu_buffer_pool :=
                     Some (pool\<lparr>buffers := take j (buffers pool) @ drop (Suc j) (buffers pool)\<rparr>)\<rparr>)"
proof -
  let ?bs = "buffers pool"
  have inv: "best_upto ?bs sz v (length ?bs) (scan_pool ?bs sz v 0 None)"
    using nex by (intro scan_pool_loose) (auto simp: totbuf_def best_upto_def)
  obtain j where sc: "scan_pool ?bs sz v 0 None = Some j"
    using inv lo by (cases "scan_pool ?bs sz v 0 None") (auto simp: best_upto_def totbuf_def)
  have props: "j < length ?bs" "loose_fit sz v (?bs ! j)"
    "\<forall>k<length ?bs. loose_fit sz v (?bs ! k) \<longrightarrow> bufsize_of (?bs ! j) \<le> bufsize_of (?bs ! k)"
    "\<forall>k<j. loose_fit sz v (?bs ! k) \<longrightarrow> bufsize_of (?bs ! j) < bufsize_of (?bs ! k)"
    using inv unfolding sc best_upto_def by simp_all
  have "gpu_buffer_alloc_intern sz v w =
          (Some (?bs ! j), w1\<lparr>gpu_buffer_pool := Some (pool\<lparr>buffers := take j ?bs @ drop (Suc j) ?bs\<rparr>)\<rparr>)"
    using sz gp sc props(1)
    by (simp add: gpu_buffer_alloc_intern_def gpu_buffer_pool_remove_index_def totbuf_def)
  with props show ?thesis unfolding totbuf_def by blast
qed

lemma gpu_buffer_alloc_intern_fresh:
  assumes sz: "sz \<noteq> 0" and gp: "gpu_get_global_buffer_pool w = (pool, w1)"
    and nex: "\<forall>e<totbuf pool. \<not> exact_fit sz v (buffers pool ! e)"
    and nlo: "\<forall>j<totbuf pool. \<not> loose_fit sz v (buffers pool ! j)"
  shows "gpu_buffer_alloc_intern sz v w = gpu_buffer_create sz v pool w1"
proof -
  let ?bs = "buffers pool"
  have inv: "best_upto ?bs sz v (length ?bs) (scan_pool ?bs sz v 0 None)"
    using nex by (intro scan_pool_loose) (auto simp: totbuf_def best_upto_def)
  have sc: "scan_pool ?bs sz v 0 None = None"
    using inv nlo by (cases "scan_pool ?bs sz v 0 None") (auto simp: best_upto_def totbuf_def)
  show ?thesis
    using sz gp sc by (simp add: gpu_buffer_alloc_intern_def)
qed

lemma too_small_no_fit:
  assumes "2 * unat (bufsize_of b) < unat sz"
  shows "\<not> exact_fit sz v b" and "\<not> loose_fit sz v b"
  using assms by (auto simp: exact_fit_def loose_fit_def word_less_nat_alt)

lemma gpu_buffer_create_fresh:
  assumes "v \<or> malloc_fails w1 = 0"
  shows "\<exists>buf w'. gpu_buffer_create sz v pool w1 = (Some buf, w')
           \<and> size_buf buf = ucast sz \<and> use_vbo buf = v
           \<and> (if v then id_buf buf = next_name w1 else pointer_buf buf = Some (next_name w1))
           \<and> next_name w' = Suc (next_name w1)"
proof (cases v)
  case True
  then show ?thesis by (simp add: gpu_buffer_create_def)
next
  case False
  with assms have z: "malloc_fails w1 = 0" by simp
  have "malloc_retry 0 (pool, deleted w1) = (True, 0, pool, deleted w1)"
    by (subst malloc_retry.simps) simp
  with False z show ?thesis by (simp add: gpu_buffer_create_def)
qed

lemma free_intern_main:
  "gpu_buffer_free_intern True (Some b) w =
     w\<lparr>gpu_buffer_pool :=
          Some ((the_pool w)\<lparr>buffers := b # take (MAX_FREE_GPU_BUFFERS - 1) (buffers (the_pool w))\<rparr>),
        deleted := drop (MAX_FREE_GPU_BUFFERS - 1) (buffers (the_pool w)) @ deleted w\<rparr>"
  by (cases "gpu_buffer_pool w")
     (simp_all add: gpu_buffer_free_intern_def gpu_get_global_buffer_pool_def the_pool_def
        trim_pool_eq)

lemma free_intern_other:
  "gpu_buffer_free_intern False (Some b) w =
     w\<lparr>gpu_buffer_pool :=
          Some ((the_pool w)\<lparr>maxsize := (if maxsize (the_pool w) = totbuf (the_pool w)
                                          then maxsize (the_pool w) + MAX_FREE_GPU_BUFFERS
                                          else maxsize (the_pool w)),
                              buffers := b # buffers (the_pool w)\<rparr>)\<rparr>"
  by (cases "gpu_buffer_pool w")
     (simp_all add: gpu_buffer_free_intern_def gpu_get_global_buffer_pool_def the_pool_def)

lemma alloc_after_main_free:
  assumes sz: "sz \<noteq> 0" and ex: "exact_fit sz v b"
  shows "gpu_buffer_alloc_intern sz v (gpu_buffer_free_intern True (Some b) w) =
           (Some b, (gpu_buffer_free_intern True (Some b) w)
                      \<lparr>gpu_buffer_pool :=
                         Some ((the_pool w)\<lparr>buffers :=
                                 take (MAX_FREE_GPU_BUFFERS - 1) (buffers (the_pool w))\<rparr>)\<rparr>)"
proof -
  let ?w' = "gpu_buffer_free_intern True (Some b) w"
  let ?p' = "(the_pool w)\<lparr>buffers := b # take (MAX_FREE_GPU_BUFFERS - 1) (buffers (the_pool w))\<rparr>"
  have pw: "gpu_buffer_pool ?w' = Some ?p'" by (simp add: free_intern_main)
  then have gp: "gpu_get_global_buffer_pool ?w' = (?p', ?w')"
    by (simp add: gpu_get_global_buffer_pool_def)
  have "\<exists>e<totbuf ?p'. exact_fit sz v (buffers ?p' ! e)"
    using ex by (intro exI[of _ 0]) (simp add: totbuf_def)
  from gpu_buffer_alloc_intern_exact[OF sz gp this]
  obtain e where e: "\<forall>k<e. \<not> exact_fit sz v (buffers ?p' ! k)"
    and res: "gpu_buffer_alloc_intern sz v ?w' =
               (Some (buffers ?p' ! e),
                ?w'\<lparr>gpu_buffer_pool :=
                     Some (?p'\<lparr>buffers := take e (buffers ?p') @ drop (Suc e) (buffers ?p')\<rparr>)\<rparr>)"
    by blast
  have "e = 0"
  proof (rule ccontr)
    assume "e \<noteq> 0"
    then have "0 < e" by simp
    with e have "\<not> exact_fit sz v (buffers ?p' ! 0)" by blast
    with ex show False by simp
  qed
  with res show ?thesis by simp
qed

text \<open>
  C6. Releasing a buffer puts it at the front of the pool. From the main thread the pool is
  first cut down to its \<open>MAX_FREE_GPU_BUFFERS - 1\<close> most recent entries, the rest (the oldest)
  being destroyed, so that it holds at most \<open>MAX_FREE_GPU_BUFFERS = 8\<close> buffers afterwards and
  the array keeps its length. From any other thread nothing is destroyed and every entry is
  kept; the array grows by \<open>MAX_FREE_GPU_BUFFERS\<close> slots when it is full. In both cases a
  pool whose count is within its array stays so.
\<close>

theorem release_policy:
  "(let w' = gpu_buffer_free_intern is_main (Some b) w; p = the_pool w; p' = the_pool w' in
      gpu_buffer_pool w' = Some p'
    \<and> buffers p' = b # (if is_main then take (MAX_FREE_GPU_BUFFERS - 1) (buffers p) else buffers p)
    \<and> (is_main \<longrightarrow> totbuf p' \<le> MAX_FREE_GPU_BUFFERS \<and> maxsize p' = maxsize p
                  \<and> deleted w' = drop (MAX_FREE_GPU_BUFFERS - 1) (buffers p) @ deleted w)
    \<and> (\<not> is_main \<longrightarrow> deleted w' = deleted w
                  \<and> maxsize p' = (if maxsize p = totbuf p
                                  then maxsize p + MAX_FREE_GPU_BUFFERS else maxsize p))
    \<and> (pool_inv p \<longrightarrow> pool_inv p'))
   \<and> MAX_FREE_GPU_BUFFERS = 8"
proof (cases is_main)
  case True
  then show ?thesis
    by (auto simp: Let_def free_intern_main the_pool_def [of "_\<lparr>gpu_buffer_pool := _, deleted := _\<rparr>"]
          gpu_get_global_buffer_pool_def totbuf_def pool_inv_def MAX_FREE_GPU_BUFFERS_def)
next
  case False
  then show ?thesis
    by (auto simp: Let_def free_intern_other the_pool_def [of "_\<lparr>gpu_buffer_pool := _\<rparr>"]
          gpu_get_global_buffer_pool_def totbuf_def pool_inv_def MAX_FREE_GPU_BUFFERS_def)
qed

theorem release_policy_witness:
  "pool_inv (the_pool world_full)
   \<and> buffers (the_pool (gpu_buffer_free_intern True (Some (mk_buffer 32 True 9)) world_full))
       = [mk_buffer 32 True 9, mk_buffer 64 True 1, mk_buffer 100 False 2, mk_buffer 40 True 3,
          mk_buffer 48 True 4, mk_buffer 16 True 5, mk_buffer 16 False 6, mk_buffer 8 True 7]
   \<and> deleted (gpu_buffer_free_intern True (Some (mk_buffer 32 True 9)) world_full)
       = [mk_buffer 4 True 8]
   \<and> pool_inv (the_pool (gpu_buffer_free_intern True (Some (mk_buffer 32 True 9)) world_full))
   \<and> totbuf (the_pool (gpu_buffer_free_intern False (Some (mk_buffer 32 True 9)) world_full)) = 9
   \<and> maxsize (the_pool (gpu_buffer_free_intern False (Some (mk_buffer 32 True 9)) world_full)) = 16
   \<and> deleted (gpu_buffer_free_intern False (Some (mk_buffer 32 True 9)) world_full) = []
   \<and> pool_inv (the_pool (gpu_buffer_free_intern False (Some (mk_buffer 32 True 9)) world_full))"
proof -
  let ?b = "mk_buffer 32 True 9"
  let ?wm = "gpu_buffer_free_intern True (Some ?b) world_full"
  let ?wo = "gpu_buffer_free_intern False (Some ?b) world_full"
  have p0: "the_pool world_full =
      \<lparr>maxsize = 8,
         buffers = [mk_buffer 64 True 1, mk_buffer 100 False 2, mk_buffer 40 True 3,
                    mk_buffer 48 True 4, mk_buffer 16 True 5, mk_buffer 16 False 6,
                    mk_buffer 8 True 7, mk_buffer 4 True 8]\<rparr>"
    by (simp add: the_pool_def gpu_get_global_buffer_pool_def world_full_def)
  have d0: "deleted world_full = []" by (simp add: world_full_def)
  have inv0: "pool_inv (the_pool world_full)"
    unfolding p0 by (simp add: pool_inv_def totbuf_def MAX_FREE_GPU_BUFFERS_def)
  have m: "buffers (the_pool ?wm) = ?b # take (MAX_FREE_GPU_BUFFERS - 1) (buffers (the_pool world_full))"
     "deleted ?wm = drop (MAX_FREE_GPU_BUFFERS - 1) (buffers (the_pool world_full)) @ deleted world_full"
     "pool_inv (the_pool ?wm)"
    using release_policy [of True ?b world_full] inv0 by (simp_all add: Let_def)
  have o: "buffers (the_pool ?wo) = ?b # buffers (the_pool world_full)"
     "deleted ?wo = deleted world_full"
     "maxsize (the_pool ?wo) = (if maxsize (the_pool world_full) = totbuf (the_pool world_full)
          then maxsize (the_pool world_full) + MAX_FREE_GPU_BUFFERS else maxsize (the_pool world_full))"
     "pool_inv (the_pool ?wo)"
    using release_policy [of False ?b world_full] inv0 by (simp_all add: Let_def)
  have m1: "buffers (the_pool ?wm) = [?b, mk_buffer 64 True 1, mk_buffer 100 False 2, mk_buffer 40 True 3,
          mk_buffer 48 True 4, mk_buffer 16 True 5, mk_buffer 16 False 6, mk_buffer 8 True 7]"
    unfolding m(1) p0 by (simp add: MAX_FREE_GPU_BUFFERS_def)
  have m2: "deleted ?wm = [mk_buffer 4 True 8]"
    unfolding m(2) p0 d0 by (simp add: MAX_FREE_GPU_BUFFERS_def)
  have o1: "totbuf (the_pool ?wo) = 9"
    unfolding totbuf_def o(1) p0 by simp
  have o2: "maxsize (the_pool ?wo) = 16"
    unfolding o(3) p0 by (simp add: totbuf_def MAX_FREE_GPU_BUFFERS_def)
  have o3: "deleted ?wo = []" unfolding o(2) d0 ..
  from inv0 m1 m2 m(3) o1 o2 o3 o(4) show ?thesis by (intro conjI)
qed

text \<open>
  C5, as the code has it. The scan only looks at pooled buffers of the requested kind
  (\<open>use_vbo\<close> equal to the request's \<open>use_VBO\<close>). Among those, for a request of size
  \<open>sz > 0\<close>: the first buffer of exactly that size is returned if there is one; otherwise the
  smallest buffer that is larger than \<open>sz\<close> and smaller than twice \<open>sz\<close> (the first of them
  among equals); the returned buffer leaves the pool. With no such buffer the call goes on
  to create a buffer, which is a fresh one whenever the driver or allocator delivers.
  Hence a request larger than twice every pooled buffer creates one, and a request for the
  size and kind of a buffer just released from the main thread gets that buffer back, with
  nothing created or destroyed.
\<close>

theorem acquire_policy:
  assumes sz: "sz \<noteq> 0" and gp: "gpu_get_global_buffer_pool w = (pool, w1)"
  shows
   "((\<exists>e<totbuf pool. exact_fit sz v (buffers pool ! e)) \<longrightarrow>
       (\<exists>e<totbuf pool. exact_fit sz v (buffers pool ! e)
           \<and> (\<forall>k<e. \<not> exact_fit sz v (buffers pool ! k))
           \<and> gpu_buffer_alloc_intern sz v w =
               (Some (buffers pool ! e),
                w1\<lparr>gpu_buffer_pool :=
                     Some (pool\<lparr>buffers := take e (buffers pool) @ drop (Suc e) (buffers pool)\<rparr>)\<rparr>)))
    \<and> ((\<forall>e<totbuf pool. \<not> exact_fit sz v (buffers pool ! e))
         \<and> (\<exists>j<totbuf pool. loose_fit sz v (buffers pool ! j)) \<longrightarrow>
       (\<exists>j<totbuf pool. loose_fit sz v (buffers pool ! j)
           \<and> (\<forall>k<totbuf pool. loose_fit sz v (buffers pool ! k)
                  \<longrightarrow> bufsize_of (buffers pool ! j) \<le> bufsize_of (buffers pool ! k))
           \<and> (\<forall>k<j. loose_fit sz v (buffers pool ! k)
                  \<longrightarrow> bufsize_of (buffers pool ! j) < bufsize_of (buffers pool ! k))
           \<and> gpu_buffer_alloc_intern sz v w =
               (Some (buffers pool ! j),
                w1\<lparr>gpu_buffer_pool :=
                     Some (pool\<lparr>buffers := take j (buffers pool) @ drop (Suc j) (buffers pool)\<rparr>)\<rparr>)))
    \<and> ((\<forall>e<totbuf pool. \<not> exact_fit sz v (buffers pool ! e))
         \<and> (\<forall>j<totbuf pool. \<not> loose_fit sz v (buffers pool ! j)) \<longrightarrow>
       gpu_buffer_alloc_intern sz v w = gpu_buffer_create sz v pool w1)
    \<and> ((\<forall>b\<in>set (buffers pool). 2 * unat (bufsize_of b) < unat sz) \<longrightarrow>
       gpu_buffer_alloc_intern sz v w = gpu_buffer_create sz v pool w1)
    \<and> (v \<or> malloc_fails w1 = 0 \<longrightarrow>
       (\<exists>buf w'. gpu_buffer_create sz v pool w1 = (Some buf, w')
           \<and> size_buf buf = ucast sz \<and> use_vbo buf = v
           \<and> (if v then id_buf buf = next_name w1 else pointer_buf buf = Some (next_name w1))
           \<and> next_name w' = Suc (next_name w1)))
    \<and> (exact_fit sz v b \<longrightarrow>
       gpu_buffer_alloc_intern sz v (gpu_buffer_free_intern True (Some b) w) =
         (Some b, (gpu_buffer_free_intern True (Some b) w)
                    \<lparr>gpu_buffer_pool :=
                       Some ((the_pool w)\<lparr>buffers :=
                               take (MAX_FREE_GPU_BUFFERS - 1) (buffers (the_pool w))\<rparr>)\<rparr>))
    \<and> (loose_fit sz v b \<longleftrightarrow>
         use_vbo b = v \<and> unat sz < unat (bufsize_of b) \<and> unat (bufsize_of b) < 2 * unat sz)
    \<and> (exact_fit sz v b \<longleftrightarrow> use_vbo b = v \<and> bufsize_of b = sz)"
proof -
  have c1: "(\<exists>e<totbuf pool. exact_fit sz v (buffers pool ! e)) \<longrightarrow>
       (\<exists>e<totbuf pool. exact_fit sz v (buffers pool ! e)
           \<and> (\<forall>k<e. \<not> exact_fit sz v (buffers pool ! k))
           \<and> gpu_buffer_alloc_intern sz v w =
               (Some (buffers pool ! e),
                w1\<lparr>gpu_buffer_pool :=
                     Some (pool\<lparr>buffers := take e (buffers pool) @ drop (Suc e) (buffers pool)\<rparr>)\<rparr>))"
    using gpu_buffer_alloc_intern_exact[OF sz gp] by blast
  have c2: "(\<forall>e<totbuf pool. \<not> exact_fit sz v (buffers pool ! e))
         \<and> (\<exists>j<totbuf pool. loose_fit sz v (buffers pool ! j)) \<longrightarrow>
       (\<exists>j<totbuf pool. loose_fit sz v (buffers pool ! j)
           \<and> (\<forall>k<totbuf pool. loose_fit sz v (buffers pool ! k)
                  \<longrightarrow> bufsize_of (buffers pool ! j) \<le> bufsize_of (buffers pool ! k))
           \<and> (\<forall>k<j. loose_fit sz v (buffers pool ! k)
                  \<longrightarrow> bufsize_of (buffers pool ! j) < bufsize_of (buffers pool ! k))
           \<and> gpu_buffer_alloc_intern sz v w =
               (Some (buffers pool ! j),
                w1\<lparr>gpu_buffer_pool :=
                     Some (pool\<lparr>buffers := take j (buffers pool) @ drop (Suc j) (buffers pool)\<rparr>)\<rparr>))"
    using gpu_buffer_alloc_intern_loose[OF sz gp] by blast
  have c3: "(\<forall>e<totbuf pool. \<not> exact_fit sz v (buffers pool ! e))
         \<and> (\<forall>j<totbuf pool. \<not> loose_fit sz v (buffers pool ! j)) \<longrightarrow>
       gpu_buffer_alloc_intern sz v w = gpu_buffer_create sz v pool w1"
    using gpu_buffer_alloc_intern_fresh[OF sz gp] by blast
  have c4: "(\<forall>b\<in>set (buffers pool). 2 * unat (bufsize_of b) < unat sz) \<longrightarrow>
       gpu_buffer_alloc_intern sz v w = gpu_buffer_create sz v pool w1"
  proof
    assume small: "\<forall>b\<in>set (buffers pool). 2 * unat (bufsize_of b) < unat sz"
    have "\<forall>e<totbuf pool. \<not> exact_fit sz v (buffers pool ! e)"
      and "\<forall>j<totbuf pool. \<not> loose_fit sz v (buffers pool ! j)"
      using small too_small_no_fit by (auto simp: totbuf_def)
    then show "gpu_buffer_alloc_intern sz v w = gpu_buffer_create sz v pool w1"
      by (rule gpu_buffer_alloc_intern_fresh[OF sz gp])
  qed
  have c5: "v \<or> malloc_fails w1 = 0 \<longrightarrow>
       (\<exists>buf w'. gpu_buffer_create sz v pool w1 = (Some buf, w')
           \<and> size_buf buf = ucast sz \<and> use_vbo buf = v
           \<and> (if v then id_buf buf = next_name w1 else pointer_buf buf = Some (next_name w1))
           \<and> next_name w' = Suc (next_name w1))"
    using gpu_buffer_create_fresh by blast
  have c6: "exact_fit sz v b \<longrightarrow>
       gpu_buffer_alloc_intern sz v (gpu_buffer_free_intern True (Some b) w) =
         (Some b, (gpu_buffer_free_intern True (Some b) w)
                    \<lparr>gpu_buffer_pool :=
                       Some ((the_pool w)\<lparr>buffers :=
                               take (MAX_FREE_GPU_BUFFERS - 1) (buffers (the_pool w))\<rparr>)\<rparr>)"
    using alloc_after_main_free[OF sz] by blast
  have c7: "loose_fit sz v b \<longleftrightarrow>
         use_vbo b = v \<and> unat sz < unat (bufsize_of b) \<and> unat (bufsize_of b) < 2 * unat sz"
    using half_less_iff [of "bufsize_of b" sz]
    by (auto simp: loose_fit_def word_less_nat_alt)
  have c8: "exact_fit sz v b \<longleftrightarrow> use_vbo b = v \<and> bufsize_of b = sz"
    by (simp add: exact_fit_def)
  from c1 c2 c3 c4 c5 c6 c7 c8 show ?thesis by (intro conjI)
qed

theorem acquire_policy_witness:
  "gpu_buffer_alloc_intern 40 True world_full =
     (Some (mk_buffer 40 True 3),
      world_full\<lparr>gpu_buffer_pool := Some \<lparr>maxsize = 8,
         buffers = [mk_buffer 64 True 1, mk_buffer 100 False 2,
                    mk_buffer 48 True 4, mk_buffer 16 True 5, mk_buffer 16 False 6,
                    mk_buffer 8 True 7, mk_buffer 4 True 8]\<rparr>\<rparr>)
   \<and> gpu_buffer_alloc_intern 1000 True world_full =
       gpu_buffer_create 1000 True (the_pool world_full) world_full
   \<and> fst (gpu_buffer_alloc_intern 40 True
            (gpu_buffer_free_intern True (Some (mk_buffer 40 True 9)) world_full))
       = Some (mk_buffer 40 True 9)"
proof -
  let ?p0 = "\<lparr>maxsize = 8,
         buffers = [mk_buffer 64 True 1, mk_buffer 100 False 2, mk_buffer 40 True 3,
                    mk_buffer 48 True 4, mk_buffer 16 True 5, mk_buffer 16 False 6,
                    mk_buffer 8 True 7, mk_buffer 4 True 8]\<rparr>"
  have gp: "gpu_get_global_buffer_pool world_full = (?p0, world_full)"
    by (simp add: gpu_get_global_buffer_pool_def world_full_def)
  have p0: "the_pool world_full = ?p0" by (simp add: the_pool_def gp)
  have nz: "(40 :: 64 word) \<noteq> 0" "(1000 :: 64 word) \<noteq> 0" by simp_all
  note pol = acquire_policy [OF nz(1) gp, of True "mk_buffer 40 True 9"]
  have ex2: "exact_fit 40 True (buffers ?p0 ! 2)"
    and nex: "\<not> exact_fit 40 True (buffers ?p0 ! 0)" "\<not> exact_fit 40 True (buffers ?p0 ! 1)"
    by (simp_all add: exact_fit_def bufsize_of_def mk_buffer_def)
  have "\<exists>e<totbuf ?p0. exact_fit 40 True (buffers ?p0 ! e)"
    using ex2 by (intro exI[of _ 2]) (simp add: totbuf_def)
  with pol obtain e where e: "exact_fit 40 True (buffers ?p0 ! e)"
      "\<forall>k<e. \<not> exact_fit 40 True (buffers ?p0 ! k)"
      and res: "gpu_buffer_alloc_intern 40 True world_full =
               (Some (buffers ?p0 ! e),
                world_full\<lparr>gpu_buffer_pool :=
                     Some (?p0\<lparr>buffers := take e (buffers ?p0) @ drop (Suc e) (buffers ?p0)\<rparr>)\<rparr>)"
    by blast
  have "\<not> 2 < e" using e(2) ex2 by blast
  then have "e = 0 \<or> e = 1 \<or> e = 2" by arith
  with e(1) nex have e2: "e = 2" by blast
  have a: "gpu_buffer_alloc_intern 40 True world_full =
     (Some (mk_buffer 40 True 3),
      world_full\<lparr>gpu_buffer_pool := Some \<lparr>maxsize = 8,
         buffers = [mk_buffer 64 True 1, mk_buffer 100 False 2,
                    mk_buffer 48 True 4, mk_buffer 16 True 5, mk_buffer 16 False 6,
                    mk_buffer 8 True 7, mk_buffer 4 True 8]\<rparr>\<rparr>)"
    unfolding res e2 by simp
  have small: "\<forall>b\<in>set (buffers ?p0). 2 * unat (bufsize_of b) < unat (1000 :: 64 word)"
    by (simp add: bufsize_of_def mk_buffer_def)
  have b: "gpu_buffer_alloc_intern 1000 True world_full =
       gpu_buffer_create 1000 True (the_pool world_full) world_full"
    using acquire_policy [OF nz(2) gp, of True] small unfolding p0 by blast
  have "exact_fit 40 True (mk_buffer 40 True 9)"
    by (simp add: exact_fit_def bufsize_of_def mk_buffer_def)
  with pol have c: "fst (gpu_buffer_alloc_intern 40 True
            (gpu_buffer_free_intern True (Some (mk_buffer 40 True 9)) world_full))
       = Some (mk_buffer 40 True 9)"
    by simp
  from a b c show ?thesis by (intro conjI)
qed

theorem acquire_other_kind_counterexample:
  "bufsize_of (mk_buffer 16 True 5) = 16
   \<and> gpu_buffer_alloc_intern 16 False
        (gpu_buffer_free_intern True (Some (mk_buffer 16 True 5)) world0)
     = (Some (mk_buffer 16 False 100),
        \<lparr>gpu_buffer_pool = Some \<lparr>maxsize = 8, buffers = [mk_buffer 16 True 5]\<rparr>,
         next_name = 101, malloc_fails = 0, deleted = []\<rparr>)"
  by (simp add: gpu_buffer_alloc_intern_def gpu_buffer_free_intern_def
        gpu_get_global_buffer_pool_def world0_def gpu_buffer_pool_new_def trim_pool.simps
        totbuf_def MAX_FREE_GPU_BUFFERS_def scan_pool.simps bufsize_of_def mk_buffer_def
        gpu_buffer_create_def malloc_retry.simps)

text \<open>
  C10. A request of size zero returns the null buffer and leaves the world, and with it the
  pool, as it is: for \<open>GPU_buffer_alloc\<close> with any flag, and for \<open>gpu_buffer_alloc_intern\<close>.
\<close>

theorem alloc_size_zero:
  "GPU_buffer_alloc vbo_ok 0 force_vertex_arrays w = (None, w)
   \<and> gpu_buffer_alloc_intern 0 use_VBO w = (None, w)"
  by (simp add: GPU_buffer_alloc_def gpu_buffer_alloc_intern_def)

subsection \<open>Weight table\<close>

lemma length_weight_row [simp]: "length (weight_row c n i x y) = n"
  by (simp add: weight_row_def Let_def split: prod.splits)

lemma sum_list_update_rat:
  "k < length xs \<Longrightarrow> sum_list (xs[k := v]) = sum_list xs - xs ! k + (v :: rat)"
proof (induction xs arbitrary: k)
  case Nil
  then show ?case by simp
next
  case (Cons a xs)
  then show ?case by (cases k) simp_all
qed

lemma neighbours_distinct:
  assumes "3 \<le> (n :: nat)" "i < n"
  shows "(i + n - 1) mod n \<noteq> i" "(i + 1) mod n \<noteq> i" "(i + 1) mod n \<noteq> (i + n - 1) mod n"
proof -
  have a: "(i + n - 1) mod n = (if i = 0 then n - 1 else i - 1)"
    using assms by (auto simp: mod_if)
  have b: "(i + 1) mod n = (if i + 1 = n then 0 else i + 1)"
    using assms by (auto simp: mod_if)
  show "(i + n - 1) mod n \<noteq> i" "(i + 1) mod n \<noteq> i" "(i + 1) mod n \<noteq> (i + n - 1) mod n"
    unfolding a b using assms by auto
qed

lemma sum_three_updates:
  assumes "a < length xs" "b < length xs" "c < length xs" "a \<noteq> b" "a \<noteq> c" "b \<noteq> c"
  shows "sum_list (xs[a := u, b := v, c := t])
         = sum_list xs - xs ! a - xs ! b - xs ! c + u + v + (t :: rat)"
  using assms by (simp add: sum_list_update_rat)

lemma tri_weights_sum:
  fixes fx fy :: rat
  shows "(1 - fx) * (1 - fy) + (- (-1) * fx * fy * (1 / 3))
         + (1 - fx + (-1) * fx * - (1 / 3)) * fy
         + fx * (1 - fy + - (-1) * fy * (1 / 3)) = 1"
  by (simp add: algebra_simps)

lemma corner_weights_tri:
  assumes "corner_weights c 3 x y = (w1, w2, w4)"
  shows "w1 + w2 + w4 = 1"
proof -
  define fx :: rat where "fx = 1 / 2 - of_nat x / of_nat (c + 1) / 2"
  define fy :: rat where "fy = 1 / 2 - of_nat y / of_nat (c + 1) / 2"
  define fac :: rat where "fac = 1 / of_nat 3"
  define fac2 :: rat where "fac2 = of_int (int 3 - 4)"
  have eqs: "w1 = (1 - fx) * (1 - fy) + (- fac2 * fx * fy * fac)"
    "w2 = (1 - fx + fac2 * fx * - fac) * fy"
    "w4 = fx * (1 - fy + - fac2 * fy * fac)"
    using assms unfolding corner_weights_def Let_def fx_def fy_def fac_def fac2_def
    by (simp_all only: prod.inject)
  have v: "fac = 1 / 3" "fac2 = -1" by (simp_all add: fac_def fac2_def)
  show ?thesis
    unfolding eqs v using tri_weights_sum[of fx fy] by simp
qed

lemma sum_weight_row:
  assumes n: "3 \<le> n" and i: "i < n"
  shows "sum_list (weight_row c n i x y) = 1"
proof -
  obtain w1 w2 w4 where cw: "corner_weights c n x y = (w1, w2, w4)"
    by (cases "corner_weights c n x y") auto
  define row0 where "row0 = (if n > 3
                  then replicate n ((1 - (w1 + w2 + w4)) / of_nat (n - 3))
                  else replicate n 0)"
  have row: "weight_row c n i x y = row0[i := w1, (i + n - 1) mod n := w2, (i + 1) mod n := w4]"
    by (simp add: weight_row_def cw Let_def row0_def)
  have l0: "length row0 = n" by (simp add: row0_def)
  have idx: "(i + n - 1) mod n < n" "(i + 1) mod n < n" using n by simp_all
  note d = neighbours_distinct[OF n i]
  have s: "sum_list (weight_row c n i x y)
           = sum_list row0 - row0 ! i - row0 ! ((i + n - 1) mod n) - row0 ! ((i + 1) mod n)
             + w1 + w2 + w4"
    unfolding row
  proof (rule sum_three_updates)
    show "i < length row0" unfolding l0 by (rule i)
    show "(i + n - 1) mod n < length row0" unfolding l0 by (rule idx(1))
    show "(i + 1) mod n < length row0" unfolding l0 by (rule idx(2))
    show "i \<noteq> (i + n - 1) mod n" using d(1) by simp
    show "i \<noteq> (i + 1) mod n" using d(2) by simp
    show "(i + n - 1) mod n \<noteq> (i + 1) mod n" using d(3) by simp
  qed
  show ?thesis
  proof (cases "n > 3")
    case True
    define r where "r = (1 - (w1 + w2 + w4)) / of_nat (n - 3)"
    have r0: "row0 = replicate n r" using True by (simp add: row0_def r_def)
    have nz: "(of_nat (n - 3) :: rat) \<noteq> 0" using True by simp
    have sr: "sum_list row0 = of_nat n * r" by (simp add: r0 sum_list_replicate)
    have "of_nat n * r - r - r - r = of_nat (n - 3) * r"
      using True by (simp add: of_nat_diff algebra_simps)
    also have "\<dots> = 1 - (w1 + w2 + w4)" using nz by (simp add: r_def)
    finally have "of_nat n * r - r - r - r = 1 - (w1 + w2 + w4)" .
    then show ?thesis
      unfolding s sr using i idx by (simp add: r0)
  next
    case False
    with n have n3: "n = 3" by simp
    have r0: "row0 = replicate n 0" using False by (simp add: row0_def)
    have "w1 + w2 + w4 = 1"
      using cw unfolding n3 by (rule corner_weights_tri)
    then show ?thesis
      unfolding s using i idx by (simp add: r0 sum_list_replicate)
  qed
qed

lemma nested_rows_mem:
  "r \<in> set (concat (map (\<lambda>i. concat (map (\<lambda>x. map (\<lambda>y. F i x y) [0..<g]) [0..<g])) [0..<n]))
   \<Longrightarrow> \<exists>i x y. i < n \<and> x < g \<and> y < g \<and> r = F i x y"
  by fastforce

lemma ss_weight_rows_mem:
  "r \<in> set (ss_weight_rows c n)
   \<Longrightarrow> \<exists>i x y. i < n \<and> x < c + 2 \<and> y < c + 2 \<and> r = weight_row c n i x y"
  unfolding ss_weight_rows_def by (rule nested_rows_mem)

lemma index_in_block:
  fixes i j a b :: nat
  assumes "i < a" "j < b"
  shows "i * b + j < a * b"
proof -
  have "i * b + j < i * b + b" using assms by simp
  also have "\<dots> = Suc i * b" by simp
  also have "\<dots> \<le> a * b" using assms by (intro mult_le_mono1) simp
  finally show ?thesis .
qed

lemma length_concat_blocks:
  "(\<And>i. i < a \<Longrightarrow> length (f i) = b) \<Longrightarrow> length (concat (map f [0..<a])) = a * b"
  by (induction a) simp_all

lemma nth_concat_blocks:
  "(\<And>i. i < a \<Longrightarrow> length (f i) = b) \<Longrightarrow> i < a \<Longrightarrow> j < b
   \<Longrightarrow> concat (map f [0..<a]) ! (i * b + j) = f i ! j"
proof (induction a)
  case 0
  then show ?case by simp
next
  case (Suc a)
  have l: "length (concat (map f [0..<a])) = a * b"
    by (rule length_concat_blocks) (simp add: Suc.prems(1))
  show ?case
  proof (cases "i < a")
    case True
    then have lt: "i * b + j < a * b" using Suc.prems(3) by (rule index_in_block)
    have "concat (map f [0..<a]) ! (i * b + j) = f i ! j"
      using True Suc.prems(3) by (intro Suc.IH) (simp_all add: Suc.prems(1))
    then show ?thesis using lt l by (simp add: nth_append)
  next
    case False
    with Suc.prems(2) have "i = a" by simp
    then show ?thesis using l by (simp add: nth_append)
  qed
qed

lemma nth_map_upt0: "y < g \<Longrightarrow> map f [0..<g] ! y = f y"
  by simp

lemma length_ss_weight_rows:
  "length (ss_weight_rows c n) = n * ((c + 2) * (c + 2))"
proof -
  have inner: "length (concat (map (\<lambda>x. map (\<lambda>y. weight_row c n i x y) [0..<c + 2]) [0..<c + 2]))
               = (c + 2) * (c + 2)" for i
    by (rule length_concat_blocks) simp
  show ?thesis
    unfolding ss_weight_rows_def by (rule length_concat_blocks) (rule inner)
qed

lemma nth_ss_weight_rows:
  assumes "i < n" "x < c + 2" "y < c + 2"
  shows "ss_weight_rows c n ! ((i * (c + 2) + x) * (c + 2) + y) = weight_row c n i x y"
proof -
  let ?g = "c + 2"
  let ?blk = "\<lambda>i. concat (map (\<lambda>x. map (\<lambda>y. weight_row c n i x y) [0..<?g]) [0..<?g])"
  have inner_len: "length (?blk i) = ?g * ?g" for i
    by (rule length_concat_blocks) simp
  have inner: "?blk i ! (x * ?g + y) = map (\<lambda>y. weight_row c n i x y) [0..<?g] ! y"
    using assms(2,3) by (intro nth_concat_blocks) simp_all
  have last: "map (\<lambda>y. weight_row c n i x y) [0..<?g] ! y = weight_row c n i x y"
    using assms(3) by (rule nth_map_upt0)
  have xy: "x * ?g + y < ?g * ?g" using assms(2,3) by (rule index_in_block)
  have "ss_weight_rows c n ! (i * (?g * ?g) + (x * ?g + y)) = ?blk i ! (x * ?g + y)"
    unfolding ss_weight_rows_def using assms(1) xy
    by (intro nth_concat_blocks) (rule inner_len)
  also have "\<dots> = weight_row c n i x y" unfolding inner by (rule last)
  finally show ?thesis by (simp add: algebra_simps)
qed

lemma row_at_concat:
  assumes "\<forall>row\<in>set rows. length row = n" "r < length rows"
  shows "row_at n (concat rows) r = rows ! r"
  using assms
proof (induction rows arbitrary: r)
  case Nil
  then show ?case by simp
next
  case (Cons a rows)
  show ?case
  proof (cases r)
    case 0
    with Cons.prems show ?thesis by (simp add: row_at_def)
  next
    case (Suc k)
    with Cons.prems have "row_at n (concat rows) k = rows ! k"
      by (intro Cons.IH) simp_all
    with Suc Cons.prems show ?thesis by (simp add: row_at_def)
  qed
qed

lemma ss_weight_rows_length_row:
  "\<forall>row\<in>set (ss_weight_rows c n). length row = n"
  using ss_weight_rows_mem by fastforce

lemma row_at_ss_weights:
  assumes "r < n * ((c + 2) * (c + 2))"
  shows "row_at n (ss_weights c n) r = ss_weight_rows c n ! r"
  unfolding ss_weights_def
  using ss_weight_rows_length_row assms
  by (intro row_at_concat) (simp_all add: length_ss_weight_rows)

lemma length_concat_rows:
  "\<forall>row\<in>set rows. length row = n \<Longrightarrow> length (concat rows) = length rows * n"
  by (induction rows) simp_all

lemma length_ss_weights: "length (ss_weights c n) = n * ((c + 2) * (c + 2)) * n"
  unfolding ss_weights_def
  using length_concat_rows[OF ss_weight_rows_length_row, of c n]
  by (simp only: length_ss_weight_rows)


lemma get_ss_weights_fresh:
  "\<not> (n < len t \<and> valid (t ! n)) \<Longrightarrow> fst (get_ss_weights t c n) = ss_weights c n"
  by (auto simp: get_ss_weights_def Let_def len_def nth_append)





text \<open>
  C3. For a face of at least three corners and any cut count, every row of the weight array
  that \<open>get_ss_weights\<close> computes sums to exactly 1 in rational arithmetic. The row of
  corner \<open>i\<close> at grid position \<open>(x, y)\<close> is the one the loop body writes; for three corners
  \<open>w1 + w2 + w4\<close> is 1 by itself, and for more the \<open>faceLen - 3\<close> other slots share the
  residual \<open>1 - (w1 + w2 + w4)\<close> evenly.
\<close>

theorem weight_rows_sum_to_one:
  assumes n: "3 \<le> faceLen"
    and fresh: "\<not> (faceLen < len wtable \<and> valid (wtable ! faceLen))"
  shows "(\<forall>r < faceLen * ((gridCuts + 2) * (gridCuts + 2)).
            sum_list (row_at faceLen (fst (get_ss_weights wtable gridCuts faceLen)) r) = 1)
       \<and> (\<forall>i x y. i < faceLen \<and> x < gridCuts + 2 \<and> y < gridCuts + 2 \<longrightarrow>
            row_at faceLen (fst (get_ss_weights wtable gridCuts faceLen))
                   ((i * (gridCuts + 2) + x) * (gridCuts + 2) + y)
              = weight_row gridCuts faceLen i x y
            \<and> sum_list (weight_row gridCuts faceLen i x y) = 1)
       \<and> (\<forall>x y. case corner_weights gridCuts faceLen x y of (w1, w2, w4) \<Rightarrow>
            (faceLen = 3 \<longrightarrow> w1 + w2 + w4 = 1)
          \<and> (faceLen > 3 \<longrightarrow>
               w1 + w2 + w4
               + of_nat (faceLen - 3) * ((1 - (w1 + w2 + w4)) / of_nat (faceLen - 3)) = 1))
       \<and> length (fst (get_ss_weights wtable gridCuts faceLen))
           = faceLen * ((gridCuts + 2) * (gridCuts + 2)) * faceLen"
proof -
  let ?g = "gridCuts + 2"
  have ws: "fst (get_ss_weights wtable gridCuts faceLen) = ss_weights gridCuts faceLen"
    using fresh by (rule get_ss_weights_fresh)
  have a: "\<forall>r < faceLen * (?g * ?g). sum_list (row_at faceLen (ss_weights gridCuts faceLen) r) = 1"
  proof (intro allI impI)
    fix r assume r: "r < faceLen * (?g * ?g)"
    then have "ss_weight_rows gridCuts faceLen ! r \<in> set (ss_weight_rows gridCuts faceLen)"
      by (simp add: length_ss_weight_rows)
    then obtain i x y where "i < faceLen"
      "ss_weight_rows gridCuts faceLen ! r = weight_row gridCuts faceLen i x y"
      using ss_weight_rows_mem by blast
    then show "sum_list (row_at faceLen (ss_weights gridCuts faceLen) r) = 1"
      using sum_weight_row[OF n] row_at_ss_weights[OF r] by simp
  qed
  have b: "\<forall>i x y. i < faceLen \<and> x < ?g \<and> y < ?g \<longrightarrow>
            row_at faceLen (ss_weights gridCuts faceLen) ((i * ?g + x) * ?g + y)
              = weight_row gridCuts faceLen i x y
            \<and> sum_list (weight_row gridCuts faceLen i x y) = 1"
  proof (intro allI impI, elim conjE)
    fix i x y assume i: "i < faceLen" and x: "x < ?g" and y: "y < ?g"
    have "i * ?g + x < faceLen * ?g" using i x by (rule index_in_block)
    then have "(i * ?g + x) * ?g + y < (faceLen * ?g) * ?g" using y by (rule index_in_block)
    then have r: "(i * ?g + x) * ?g + y < faceLen * (?g * ?g)" by (simp only: mult.assoc)
    show "row_at faceLen (ss_weights gridCuts faceLen) ((i * ?g + x) * ?g + y)
              = weight_row gridCuts faceLen i x y
            \<and> sum_list (weight_row gridCuts faceLen i x y) = 1"
      using row_at_ss_weights[OF r] nth_ss_weight_rows[OF i x y] sum_weight_row[OF n i]
      by simp
  qed
  have c: "\<forall>x y. case corner_weights gridCuts faceLen x y of (w1, w2, w4) \<Rightarrow>
            (faceLen = 3 \<longrightarrow> w1 + w2 + w4 = 1)
          \<and> (faceLen > 3 \<longrightarrow>
               w1 + w2 + w4
               + of_nat (faceLen - 3) * ((1 - (w1 + w2 + w4)) / of_nat (faceLen - 3)) = 1)"
  proof (intro allI)
    fix x y
    obtain w1 w2 w4 where cw: "corner_weights gridCuts faceLen x y = (w1, w2, w4)"
      by (cases "corner_weights gridCuts faceLen x y") auto
    have "faceLen = 3 \<longrightarrow> w1 + w2 + w4 = 1"
      using cw corner_weights_tri by blast
    moreover have "faceLen > 3 \<longrightarrow>
               w1 + w2 + w4
               + of_nat (faceLen - 3) * ((1 - (w1 + w2 + w4)) / of_nat (faceLen - 3)) = 1"
      by simp
    ultimately show "case corner_weights gridCuts faceLen x y of (w1, w2, w4) \<Rightarrow>
            (faceLen = 3 \<longrightarrow> w1 + w2 + w4 = 1)
          \<and> (faceLen > 3 \<longrightarrow>
               w1 + w2 + w4
               + of_nat (faceLen - 3) * ((1 - (w1 + w2 + w4)) / of_nat (faceLen - 3)) = 1)"
      by (simp add: cw)
  qed
  from a b c show ?thesis unfolding ws using length_ss_weights by blast
qed

theorem weight_rows_sum_to_one_witness:
  "(3 :: nat) \<le> 4 \<and> \<not> (4 < len [] \<and> valid ([] ! 4))
   \<and> sum_list (row_at 4 (fst (get_ss_weights [] 1 4)) 7) = 1
   \<and> row_at 4 (fst (get_ss_weights [] 1 4)) ((2 * (1 + 2) + 1) * (1 + 2) + 2)
       = weight_row 1 4 2 1 2
   \<and> sum_list (weight_row 1 4 2 1 2) = 1
   \<and> length (fst (get_ss_weights [] 1 4)) = 4 * ((1 + 2) * (1 + 2)) * 4"
proof -
  have h1: "(3 :: nat) \<le> 4" by simp
  have h2: "\<not> (4 < len [] \<and> valid ([] ! 4))" by (simp add: len_def)
  note t = weight_rows_sum_to_one [OF h1 h2, of 1]
  from t have rows: "\<forall>r < 4 * ((1 + 2) * (1 + 2)).
            sum_list (row_at 4 (fst (get_ss_weights [] 1 4)) r) = 1"
    by (rule conjunct1)
  have "(7 :: nat) < 4 * ((1 + 2) * (1 + 2))" by simp
  with rows have a: "sum_list (row_at 4 (fst (get_ss_weights [] 1 4)) 7) = 1" by blast
  from t have pos: "\<forall>i x y. i < 4 \<and> x < 1 + 2 \<and> y < 1 + 2 \<longrightarrow>
            row_at 4 (fst (get_ss_weights [] 1 4)) ((i * (1 + 2) + x) * (1 + 2) + y)
              = weight_row 1 4 i x y
            \<and> sum_list (weight_row 1 4 i x y) = 1"
    by (rule conjunct2 [THEN conjunct1])
  have "(2 :: nat) < 4 \<and> (1 :: nat) < 1 + 2 \<and> (2 :: nat) < 1 + 2" by simp
  with pos have b: "row_at 4 (fst (get_ss_weights [] 1 4)) ((2 * (1 + 2) + 1) * (1 + 2) + 2)
       = weight_row 1 4 2 1 2 \<and> sum_list (weight_row 1 4 2 1 2) = 1"
    by blast
  from t have c: "length (fst (get_ss_weights [] 1 4)) = 4 * ((1 + 2) * (1 + 2)) * 4"
    by (rule conjunct2 [THEN conjunct2, THEN conjunct2])
  from h1 h2 a b c show ?thesis by (intro conjI) simp_all
qed











subsection \<open>UV resync\<close>

lemma find_separate_iff: "find_separate vs \<noteq> None \<longleftrightarrow> (\<exists>v\<in>set vs. uv_separate v)"
  by (induction vs) auto

lemma sync_separate_seam:
  "c \<in> set (sync_separate mpoly mloopuv seam vs) \<Longrightarrow> sv_seam c = seam"
  by (induction vs) (auto simp: Let_def split: if_splits)

lemma sync_separate_length:
  "length (sync_separate mpoly mloopuv seam vs) = length (filter uv_separate vs)"
  by (induction vs) (auto simp: Let_def)

text \<open>
  C7. Every \<open>syncVert\<close> call that the vertex loop makes for a base vertex carries the seam
  flag exactly when the vertex's UV list has a separate node after the first one or the
  vertex has the \<open>ME_VERT_MERGED\<close> bit; the loop makes one call per separate node, and none
  for a vertex without UV nodes. So a welded vertex whose first node is separate is synced,
  and only as a seam, also when no further UV island meets there.
\<close>

theorem uv_seam_rule:
  "(\<forall>c\<in>set (sync_uv_vert ME_VERT_MERGED vmap mvert mpoly mloopuv i).
       sv_seam c \<longleftrightarrow> ((\<exists>v\<in>set (tl (vmap i)). uv_separate v)
                        \<or> mv_flag (mvert ! i) AND ME_VERT_MERGED \<noteq> 0))
   \<and> length (sync_uv_vert ME_VERT_MERGED vmap mvert mpoly mloopuv i)
       = length (filter uv_separate (vmap i))
   \<and> set (ss_sync_from_uv_verts ME_VERT_MERGED vmap mvert mpoly mloopuv totvert)
       = (\<Union>i<totvert. set (sync_uv_vert ME_VERT_MERGED vmap mvert mpoly mloopuv i))
   \<and> (mv_flag (mvert ! i) AND ME_VERT_MERGED \<noteq> 0 \<and> vmap i \<noteq> [] \<and> uv_separate (hd (vmap i))
        \<longrightarrow> sync_uv_vert ME_VERT_MERGED vmap mvert mpoly mloopuv i \<noteq> []
            \<and> (\<forall>c\<in>set (sync_uv_vert ME_VERT_MERGED vmap mvert mpoly mloopuv i). sv_seam c))"
proof -
  let ?calls = "sync_uv_vert ME_VERT_MERGED vmap mvert mpoly mloopuv i"
  let ?rule = "(\<exists>v\<in>set (tl (vmap i)). uv_separate v)
                 \<or> mv_flag (mvert ! i) AND ME_VERT_MERGED \<noteq> 0"
  have a: "\<forall>c\<in>set ?calls. sv_seam c \<longleftrightarrow> ?rule"
  proof (cases "vmap i")
    case Nil
    then show ?thesis by (simp add: sync_uv_vert_def)
  next
    case (Cons first rest)
    have "?calls = sync_separate mpoly mloopuv ?rule (first # rest)"
      using Cons find_separate_iff[of rest]
      by (simp add: sync_uv_vert_def Let_def del: sync_separate.simps)
    then have "\<And>c. c \<in> set ?calls \<Longrightarrow> sv_seam c = ?rule"
      using sync_separate_seam[of _ mpoly mloopuv ?rule "first # rest"] by simp
    then show ?thesis by blast
  qed
  have b: "length ?calls = length (filter uv_separate (vmap i))"
    by (cases "vmap i")
       (simp_all add: sync_uv_vert_def Let_def sync_separate_length del: sync_separate.simps)
  have c: "set (ss_sync_from_uv_verts ME_VERT_MERGED vmap mvert mpoly mloopuv totvert)
       = (\<Union>i<totvert. set (sync_uv_vert ME_VERT_MERGED vmap mvert mpoly mloopuv i))"
    by (auto simp: ss_sync_from_uv_verts_def)
  have d: "mv_flag (mvert ! i) AND ME_VERT_MERGED \<noteq> 0 \<and> vmap i \<noteq> [] \<and> uv_separate (hd (vmap i))
        \<longrightarrow> ?calls \<noteq> [] \<and> (\<forall>c\<in>set ?calls. sv_seam c)"
  proof (intro impI, elim conjE)
    assume m: "mv_flag (mvert ! i) AND ME_VERT_MERGED \<noteq> 0" and ne: "vmap i \<noteq> []"
      and s: "uv_separate (hd (vmap i))"
    from ne s have "filter uv_separate (vmap i) \<noteq> []"
      by (cases "vmap i") auto
    with b have "?calls \<noteq> []" by auto
    moreover have "\<forall>c\<in>set ?calls. sv_seam c" using a m by blast
    ultimately show "?calls \<noteq> [] \<and> (\<forall>c\<in>set ?calls. sv_seam c)" by blast
  qed
  from a b c d show ?thesis by (intro conjI)
qed

theorem uv_seam_rule_witness:
  "sync_uv_vert 64 welded_vmap welded_mvert welded_mpoly [''a'', ''b'', ''c'', ''d''] 0
     = [\<lparr>sv_vhdl = 0, sv_uv = ''a'', sv_seam = True\<rparr>]
   \<and> mv_flag (welded_mvert ! 0) AND 64 \<noteq> 0
   \<and> welded_vmap 0 \<noteq> [] \<and> uv_separate (hd (welded_vmap 0))
   \<and> \<not> uv_separate (hd (tl (welded_vmap 0)))
   \<and> sync_uv_vert 64 welded_vmap welded_mvert welded_mpoly [''a'', ''b'', ''c'', ''d''] 1
     = [\<lparr>sv_vhdl = 1, sv_uv = ''b'', sv_seam = False\<rparr>]"
proof -
  let ?uv = "[''a'', ''b'', ''c'', ''d'']"
  let ?c0 = "sync_uv_vert 64 welded_vmap welded_mvert welded_mpoly ?uv 0"
  have h: "mv_flag (welded_mvert ! 0) AND 64 \<noteq> 0" "welded_vmap 0 \<noteq> []"
    "uv_separate (hd (welded_vmap 0))" "\<not> uv_separate (hd (tl (welded_vmap 0)))"
    by (simp_all add: welded_mvert_def welded_vmap_def)
  have shape: "\<exists>s. ?c0 = [\<lparr>sv_vhdl = 0, sv_uv = ''a'', sv_seam = s\<rparr>]"
    by (simp add: sync_uv_vert_def welded_vmap_def welded_mpoly_def Let_def)
  from uv_seam_rule [of 64 welded_vmap welded_mvert welded_mpoly ?uv 0] h
  have "\<forall>c\<in>set ?c0. sv_seam c" by blast
  with shape have a: "?c0 = [\<lparr>sv_vhdl = 0, sv_uv = ''a'', sv_seam = True\<rparr>]" by auto
  have b: "sync_uv_vert 64 welded_vmap welded_mvert welded_mpoly ?uv 1
     = [\<lparr>sv_vhdl = 1, sv_uv = ''b'', sv_seam = False\<rparr>]"
    by (simp add: sync_uv_vert_def welded_vmap_def welded_mpoly_def welded_mvert_def Let_def)
  from a h b show ?thesis by (intro conjI)
qed

subsection \<open>The materialization loops in closed form\<close>

lemma fold_const: "fold (\<lambda>_. f) xs = f ^^ length xs"
proof (induction xs)
  case Nil
  show ?case by (simp add: fun_eq_iff)
next
  case (Cons x xs)
  show ?case by (simp add: Cons fun_eq_iff funpow_swap1)
qed

lemma fold_const2: "fold (\<lambda>_. fold (\<lambda>_. f) xs) ys = f ^^ (length ys * length xs)"
  by (simp only: fold_const funpow_mult mult.commute)

lemma fold_const3:
  "fold (\<lambda>_. fold (\<lambda>_. fold (\<lambda>_. f) xs) ys) zs = f ^^ (length zs * (length ys * length xs))"
  by (simp only: fold_const funpow_mult mult.commute mult.left_commute)

lemma write_run_0 [simp]: "write_run v 0 p = p"
  by (cases p) (auto simp: write_run_def)

lemma write_next_run: "write_next v (write_run v k p) = write_run v (Suc k) p"
  by (cases p) (auto simp: write_run_def write_next_def fun_eq_iff)

lemma write_run_add: "write_run v j (write_run v k p) = write_run v (k + j) p"
  by (cases p) (auto simp: write_run_def fun_eq_iff)

lemma count_run_0 [simp]: "count_run c 0 p = p"
  by (cases p) (auto simp: count_run_def)

lemma write_next_count: "write_next (int c + int k) (count_run c k p) = count_run c (Suc k) p"
  by (cases p) (auto simp: count_run_def write_next_def fun_eq_iff)

lemma fill_range_0 [simp]: "fill_range v lo 0 l = l"
  by (cases l) (auto simp: fill_range_def)

lemma emit_vert_pow:
  "(emit_vert v ^^ k) st =
     st\<lparr>vertOrigIndex := write_run v k (vertOrigIndex st), vertNum := vertNum st + k\<rparr>"
proof (induction k)
  case 0
  show ?case by simp
next
  case (Suc k)
  show ?case
    by (simp only: funpow.simps comp_apply Suc) (simp add: emit_vert_def write_next_run)
qed

lemma emit_quad_pow:
  "(emit_quad pv ^^ k) st =
     st\<lparr>loopindex2 := loopindex2 st + 4 * k,
        faceOrigIndex := count_run (faceNum st) k (faceOrigIndex st),
        polyOrigIndex := write_run pv k (polyOrigIndex st),
        faceNum := faceNum st + k\<rparr>"
proof (induction k)
  case 0
  show ?case by simp
next
  case (Suc k)
  show ?case
    by (simp only: funpow.simps comp_apply Suc)
       (simp add: emit_quad_def write_next_run write_next_count)
qed

lemma write_edge_fold:
  "fold (write_edgeOrigIndex v) [0..<k] st =
     st\<lparr>edgeOrigIndex := fill_range v (edgeNum st) k (edgeOrigIndex st)\<rparr>"
proof (induction k)
  case 0
  show ?case by simp
next
  case (Suc k)
  have "map_option (\<lambda>a. a(edgeNum st + k := v)) (fill_range v (edgeNum st) k (edgeOrigIndex st))
        = fill_range v (edgeNum st) (Suc k) (edgeOrigIndex st)"
    by (cases "edgeOrigIndex st") (auto simp: fill_range_def fun_eq_iff)
  then show ?case
    by (simp only: upt_Suc_append [OF le0] fold_append comp_apply fold_simps Suc)
       (simp add: write_edgeOrigIndex_def)
qed


lemma face_body_eq:
  "face_body base index st =
     st\<lparr>faceMap := faceMap st @ [\<lparr>fm_startVert = vertNum st, fm_startEdge = edgeNum st,
                                     fm_startFace = faceNum st\<rparr>],
        ccg_ss := set_faceUserData index (int (vertNum st)) (ccg_ss st),
        loopindex := loopindex st + ccgSubSurf_getFaceNumVerts (ccg_ss st) index,
        vertOrigIndex := write_run ORIGINDEX_NONE (face_vert_count (ccg_ss st) index)
                           (vertOrigIndex st),
        vertNum := vertNum st + face_vert_count (ccg_ss st) index,
        edgeOrigIndex := fill_range ORIGINDEX_NONE (edgeNum st)
                           (face_edge_count (ccg_ss st) index) (edgeOrigIndex st),
        loopindex2 := loopindex2 st + 4 * face_quad_count (ccg_ss st) index,
        faceOrigIndex := count_run (faceNum st) (face_quad_count (ccg_ss st) index)
                           (faceOrigIndex st),
        polyOrigIndex := write_run (poly_orig base index) (face_quad_count (ccg_ss st) index)
                           (polyOrigIndex st),
        faceNum := faceNum st + face_quad_count (ccg_ss st) index,
        edgeNum := edgeNum st + face_edge_count (ccg_ss st) index\<rparr>"
proof -
  let ?n = "ccgSubSurf_getFaceNumVerts (ccg_ss st) index"
  let ?g = "ss_gridSize (ccg_ss st)"
  have g2: "?g - 1 - 1 = ?g - 2" by simp
  have wr: "write_run ORIGINDEX_NONE (?n * ((?g - 2) * (?g - 2)))
              (write_run ORIGINDEX_NONE (?n * (?g - 2))
                (write_next ORIGINDEX_NONE (vertOrigIndex st)))
            = write_run ORIGINDEX_NONE (face_vert_count (ccg_ss st) index) (vertOrigIndex st)"
    using write_next_run[of ORIGINDEX_NONE 0 "vertOrigIndex st"]
    by (simp add: write_run_add face_vert_count_def)
  have len: "length [1..<?g - 1] = ?g - 2" "length [0..<?g - 1] = ?g - 1"
    "length [0..<?n] = ?n" by simp_all
  show ?thesis
    unfolding face_body_def Let_def
    unfolding fold_const3
    unfolding fold_const2
    unfolding write_edge_fold emit_vert_pow emit_quad_pow len
    by (simp add: emit_vert_def wr face_vert_count_def face_edge_count_def
          face_quad_count_def poly_orig_def g2)
qed

lemma nth_update_same_field:
  assumes "\<And>x. sel (upd x) = sel x"
  shows "sel ((xs[i := upd (xs ! i)]) ! j) = sel (xs ! j)"
proof (cases "i < length xs")
  case True
  then show ?thesis using assms by (cases "i = j") simp_all
next
  case False
  then have "xs[i := upd (xs ! i)] = xs" by (intro list_update_beyond) simp
  then show ?thesis by simp
qed

text \<open>The user-data setters leave the topology and the other slots alone.\<close>

lemma set_faceUserData_keeps [simp]:
  "ss_verts (set_faceUserData f v ss) = ss_verts ss"
  "ss_edges (set_faceUserData f v ss) = ss_edges ss"
  "ss_gridSize (set_faceUserData f v ss) = ss_gridSize ss"
  "ss_edgeSize (set_faceUserData f v ss) = ss_edgeSize ss"
  "length (ss_faces (set_faceUserData f v ss)) = length (ss_faces ss)"
  "face_verts (ss_faces (set_faceUserData f v ss) ! g) = face_verts (ss_faces ss ! g)"
  "face_edges (ss_faces (set_faceUserData f v ss) ! g) = face_edges (ss_faces ss ! g)"
  "face_user1 (ss_faces (set_faceUserData f v ss) ! g) = face_user1 (ss_faces ss ! g)"
  by (simp_all add: set_faceUserData_def nth_update_same_field)

lemma set_edgeUserData_keeps [simp]:
  "ss_verts (set_edgeUserData e v ss) = ss_verts ss"
  "ss_faces (set_edgeUserData e v ss) = ss_faces ss"
  "ss_gridSize (set_edgeUserData e v ss) = ss_gridSize ss"
  "ss_edgeSize (set_edgeUserData e v ss) = ss_edgeSize ss"
  "length (ss_edges (set_edgeUserData e v ss)) = length (ss_edges ss)"
  "edge_v0 (ss_edges (set_edgeUserData e v ss) ! g) = edge_v0 (ss_edges ss ! g)"
  "edge_v1 (ss_edges (set_edgeUserData e v ss) ! g) = edge_v1 (ss_edges ss ! g)"
  "edge_user1 (ss_edges (set_edgeUserData e v ss) ! g) = edge_user1 (ss_edges ss ! g)"
  by (simp_all add: set_edgeUserData_def nth_update_same_field)

lemma set_vertUserData_keeps [simp]:
  "ss_edges (set_vertUserData x v ss) = ss_edges ss"
  "ss_faces (set_vertUserData x v ss) = ss_faces ss"
  "ss_gridSize (set_vertUserData x v ss) = ss_gridSize ss"
  "ss_edgeSize (set_vertUserData x v ss) = ss_edgeSize ss"
  "length (ss_verts (set_vertUserData x v ss)) = length (ss_verts ss)"
  "vert_user1 (ss_verts (set_vertUserData x v ss) ! g) = vert_user1 (ss_verts ss ! g)"
  by (simp_all add: set_vertUserData_def nth_update_same_field)

lemma fold_faceUserData_keeps [simp]:
  "ss_verts (fold (\<lambda>j. set_faceUserData j (h j)) xs ss) = ss_verts ss"
  "ss_edges (fold (\<lambda>j. set_faceUserData j (h j)) xs ss) = ss_edges ss"
  "ss_gridSize (fold (\<lambda>j. set_faceUserData j (h j)) xs ss) = ss_gridSize ss"
  "ss_edgeSize (fold (\<lambda>j. set_faceUserData j (h j)) xs ss) = ss_edgeSize ss"
  "length (ss_faces (fold (\<lambda>j. set_faceUserData j (h j)) xs ss)) = length (ss_faces ss)"
  "face_verts (ss_faces (fold (\<lambda>j. set_faceUserData j (h j)) xs ss) ! g) = face_verts (ss_faces ss ! g)"
  "face_edges (ss_faces (fold (\<lambda>j. set_faceUserData j (h j)) xs ss) ! g) = face_edges (ss_faces ss ! g)"
  "face_user1 (ss_faces (fold (\<lambda>j. set_faceUserData j (h j)) xs ss) ! g) = face_user1 (ss_faces ss ! g)"
  by (induction xs arbitrary: ss) simp_all

lemma fold_edgeUserData_keeps [simp]:
  "ss_verts (fold (\<lambda>j. set_edgeUserData j (h j)) xs ss) = ss_verts ss"
  "ss_faces (fold (\<lambda>j. set_edgeUserData j (h j)) xs ss) = ss_faces ss"
  "ss_gridSize (fold (\<lambda>j. set_edgeUserData j (h j)) xs ss) = ss_gridSize ss"
  "ss_edgeSize (fold (\<lambda>j. set_edgeUserData j (h j)) xs ss) = ss_edgeSize ss"
  "length (ss_edges (fold (\<lambda>j. set_edgeUserData j (h j)) xs ss)) = length (ss_edges ss)"
  "edge_v0 (ss_edges (fold (\<lambda>j. set_edgeUserData j (h j)) xs ss) ! g) = edge_v0 (ss_edges ss ! g)"
  "edge_v1 (ss_edges (fold (\<lambda>j. set_edgeUserData j (h j)) xs ss) ! g) = edge_v1 (ss_edges ss ! g)"
  "edge_user1 (ss_edges (fold (\<lambda>j. set_edgeUserData j (h j)) xs ss) ! g) = edge_user1 (ss_edges ss ! g)"
  by (induction xs arbitrary: ss) simp_all

lemma fold_vertUserData_keeps [simp]:
  "ss_edges (fold (\<lambda>j. set_vertUserData j (h j)) xs ss) = ss_edges ss"
  "ss_faces (fold (\<lambda>j. set_vertUserData j (h j)) xs ss) = ss_faces ss"
  "ss_gridSize (fold (\<lambda>j. set_vertUserData j (h j)) xs ss) = ss_gridSize ss"
  "ss_edgeSize (fold (\<lambda>j. set_vertUserData j (h j)) xs ss) = ss_edgeSize ss"
  "length (ss_verts (fold (\<lambda>j. set_vertUserData j (h j)) xs ss)) = length (ss_verts ss)"
  "vert_user1 (ss_verts (fold (\<lambda>j. set_vertUserData j (h j)) xs ss) ! g) = vert_user1 (ss_verts ss ! g)"
  by (induction xs arbitrary: ss) simp_all

lemma edge_body_eq:
  "edge_body index st =
     st\<lparr>edgeMap := edgeMap st @ [\<lparr>em_startVert = vertNum st, em_startEdge = edgeNum st\<rparr>],
        ccg_ss := set_edgeUserData index (int (vertNum st)) (ccg_ss st),
        vertOrigIndex := write_run ORIGINDEX_NONE (ss_edgeSize (ccg_ss st) - 2) (vertOrigIndex st),
        vertNum := vertNum st + (ss_edgeSize (ccg_ss st) - 2),
        edgeOrigIndex := fill_range (ccgDM_getEdgeMapIndex (ccg_ss st) index) (edgeNum st)
                           (ss_edgeSize (ccg_ss st) - 1) (edgeOrigIndex st),
        edgeNum := edgeNum st + (ss_edgeSize (ccg_ss st) - 1)\<rparr>"
proof -
  let ?e = "ss_edgeSize (ccg_ss st)"
  have len: "length [1..<?e - 1] = ?e - 2" by simp
  show ?thesis
    unfolding edge_body_def Let_def
    unfolding fold_const write_edge_fold emit_vert_pow len
    by simp
qed

lemma vert_body_eq:
  "vert_body index st =
     st\<lparr>vertMap := vertMap st @ [vertNum st],
        ccg_ss := set_vertUserData index (int (vertNum st)) (ccg_ss st),
        vertOrigIndex := write_next (ccgDM_getVertMapIndex (ccg_ss st) index) (vertOrigIndex st),
        vertNum := Suc (vertNum st)\<rparr>"
  by (simp add: vert_body_def Let_def emit_vert_def)

lemma set_faceUserData_user0:
  "face_user0 (ss_faces (set_faceUserData f v ss) ! g)
   = (if f = g \<and> f < length (ss_faces ss) then v else face_user0 (ss_faces ss ! g))"
proof (cases "f < length (ss_faces ss)")
  case True
  then show ?thesis by (cases "f = g") (simp_all add: set_faceUserData_def)
next
  case False
  then have "(ss_faces ss)[f := (ss_faces ss ! f)\<lparr>face_user0 := v\<rparr>] = ss_faces ss"
    by (intro list_update_beyond) simp
  then show ?thesis using False by (simp add: set_faceUserData_def)
qed

lemma set_edgeUserData_user0:
  "edge_user0 (ss_edges (set_edgeUserData e v ss) ! g)
   = (if e = g \<and> e < length (ss_edges ss) then v else edge_user0 (ss_edges ss ! g))"
proof (cases "e < length (ss_edges ss)")
  case True
  then show ?thesis by (cases "e = g") (simp_all add: set_edgeUserData_def)
next
  case False
  then have "(ss_edges ss)[e := (ss_edges ss ! e)\<lparr>edge_user0 := v\<rparr>] = ss_edges ss"
    by (intro list_update_beyond) simp
  then show ?thesis using False by (simp add: set_edgeUserData_def)
qed

lemma set_vertUserData_user0:
  "vert_user0 (ss_verts (set_vertUserData x v ss) ! g)
   = (if x = g \<and> x < length (ss_verts ss) then v else vert_user0 (ss_verts ss ! g))"
proof (cases "x < length (ss_verts ss)")
  case True
  then show ?thesis by (cases "x = g") (simp_all add: set_vertUserData_def)
next
  case False
  then have "(ss_verts ss)[x := (ss_verts ss ! x)\<lparr>vert_user0 := v\<rparr>] = ss_verts ss"
    by (intro list_update_beyond) simp
  then show ?thesis using False by (simp add: set_vertUserData_def)
qed

lemma fold_faceUserData_user0:
  "face_user0 (ss_faces (fold (\<lambda>j. set_faceUserData j (h j)) [0..<k] ss) ! g)
   = (if g < k \<and> g < length (ss_faces ss) then h g else face_user0 (ss_faces ss ! g))"
proof (induction k)
  case 0
  show ?case by simp
next
  case (Suc k)
  show ?case
    by (simp only: upt_Suc_append [OF le0] fold_append comp_apply fold_simps
          set_faceUserData_user0 Suc fold_faceUserData_keeps)
       (auto simp: less_Suc_eq)
qed

lemma fold_edgeUserData_user0:
  "edge_user0 (ss_edges (fold (\<lambda>j. set_edgeUserData j (h j)) [0..<k] ss) ! g)
   = (if g < k \<and> g < length (ss_edges ss) then h g else edge_user0 (ss_edges ss ! g))"
proof (induction k)
  case 0
  show ?case by simp
next
  case (Suc k)
  show ?case
    by (simp only: upt_Suc_append [OF le0] fold_append comp_apply fold_simps
          set_edgeUserData_user0 Suc fold_edgeUserData_keeps)
       (auto simp: less_Suc_eq)
qed

lemma fold_vertUserData_user0:
  "vert_user0 (ss_verts (fold (\<lambda>j. set_vertUserData j (h j)) [0..<k] ss) ! g)
   = (if g < k \<and> g < length (ss_verts ss) then h g else vert_user0 (ss_verts ss ! g))"
proof (induction k)
  case 0
  show ?case by simp
next
  case (Suc k)
  show ?case
    by (simp only: upt_Suc_append [OF le0] fold_append comp_apply fold_simps
          set_vertUserData_user0 Suc fold_vertUserData_keeps)
       (auto simp: less_Suc_eq)
qed

lemma fill_range_add:
  "fill_range v (lo + k1) k2 (fill_range v lo k1 l) = fill_range v lo (k1 + k2) l"
  by (cases l) (auto simp: fill_range_def fun_eq_iff)

lemma count_run_add:
  "count_run (c + k1) k2 (count_run c k1 (map_option (Pair p0) l))
   = count_run c (k1 + k2) (map_option (Pair p0) l)"
  by (cases l) (auto simp: count_run_def fun_eq_iff)

lemma counts_after_faceUserData [simp]:
  "face_vert_count (fold (\<lambda>j. set_faceUserData j (h j)) xs ss) f = face_vert_count ss f"
  "face_edge_count (fold (\<lambda>j. set_faceUserData j (h j)) xs ss) f = face_edge_count ss f"
  "face_quad_count (fold (\<lambda>j. set_faceUserData j (h j)) xs ss) f = face_quad_count ss f"
  "ccgSubSurf_getFaceNumVerts (fold (\<lambda>j. set_faceUserData j (h j)) xs ss) f
   = ccgSubSurf_getFaceNumVerts ss f"
  by (simp_all add: face_vert_count_def face_edge_count_def face_quad_count_def
        ccgSubSurf_getFaceNumVerts_def)

lemma before_Suc:
  "verts_before ss (Suc k) = verts_before ss k + face_vert_count ss k"
  "edges_before ss (Suc k) = edges_before ss k + face_edge_count ss k"
  "quads_before ss (Suc k) = quads_before ss k + face_quad_count ss k"
  "loops_before ss (Suc k) = loops_before ss k + ccgSubSurf_getFaceNumVerts ss k"
  by (simp_all add: verts_before_def edges_before_def quads_before_def loops_before_def)

lemma before_0 [simp]:
  "verts_before ss 0 = 0" "edges_before ss 0 = 0" "quads_before ss 0 = 0" "loops_before ss 0 = 0"
  by (simp_all add: verts_before_def edges_before_def quads_before_def loops_before_def)

lemma faces_fold:
  "fold (face_body base) [0..<k] (mat_init ss vl el fl pl) = after_faces ss base vl el fl pl k"
proof (induction k)
  case 0
  show ?case by (simp add: mat_init_def after_faces_def)
next
  case (Suc k)
  have "fold (face_body base) [0..<Suc k] (mat_init ss vl el fl pl)
        = face_body base k (after_faces ss base vl el fl pl k)"
    by (simp only: upt_Suc_append [OF le0] fold_append comp_apply fold_simps Suc)
  also have "\<dots> = after_faces ss base vl el fl pl (Suc k)"
    unfolding face_body_eq
    using fill_range_add[of ORIGINDEX_NONE 0 "edges_before ss k" "face_edge_count ss k" el]
          count_run_add[of 0 "quads_before ss k" "face_quad_count ss k" 0 fl]
    by (simp add: after_faces_def before_Suc write_run_add)
  finally show ?case .
qed

lemma edges_fold:
  assumes "ss_edgeSize (ccg_ss stF) = ss_edgeSize ss"
    and "\<And>j. edge_user1 (ss_edges (ccg_ss stF) ! j) = edge_user1 (ss_edges ss ! j)"
    and "edgeMap stF = []"
  shows "fold edge_body [0..<k] stF = after_edges ss stF k"
proof (induction k)
  case 0
  show ?case using assms(3) by (simp add: after_edges_def)
next
  case (Suc k)
  have "fold edge_body [0..<Suc k] stF = edge_body k (after_edges ss stF k)"
    by (simp only: upt_Suc_append [OF le0] fold_append comp_apply fold_simps Suc)
  also have "\<dots> = after_edges ss stF (Suc k)"
    unfolding edge_body_eq
    by (simp add: after_edges_def assms(1,2) write_run_add ccgDM_getEdgeMapIndex_def
          ac_simps)
  finally show ?case .
qed

lemma verts_fold:
  assumes "\<And>j. vert_user1 (ss_verts (ccg_ss stE) ! j) = vert_user1 (ss_verts ss ! j)"
    and "vertMap stE = []"
  shows "fold vert_body [0..<k] stE = after_verts ss stE k"
proof (induction k)
  case 0
  show ?case using assms(2) by (simp add: after_verts_def)
next
  case (Suc k)
  have "fold vert_body [0..<Suc k] stE = vert_body k (after_verts ss stE k)"
    by (simp only: upt_Suc_append [OF le0] fold_append comp_apply fold_simps Suc)
  also have "\<dots> = after_verts ss stE (Suc k)"
    unfolding vert_body_eq
    by (simp add: after_verts_def assms(1) ccgDM_getVertMapIndex_def)
  finally show ?case .
qed

lemma getCCGDerivedMesh_eq:
  "getCCGDerivedMesh ss base vl el fl pl =
     after_verts ss
       (after_edges ss (after_faces ss base vl el fl pl (ccgSubSurf_getNumFaces ss))
          (ccgSubSurf_getNumEdges ss))
       (ccgSubSurf_getNumVerts ss)"
proof -
  let ?stF = "after_faces ss base vl el fl pl (ccgSubSurf_getNumFaces ss)"
  let ?stE = "after_edges ss ?stF (ccgSubSurf_getNumEdges ss)"
  have e: "fold edge_body [0..<ccgSubSurf_getNumEdges ss] ?stF = ?stE"
    by (rule edges_fold) (simp_all add: after_faces_def)
  have v: "fold vert_body [0..<ccgSubSurf_getNumVerts ss] ?stE
           = after_verts ss ?stE (ccgSubSurf_getNumVerts ss)"
    by (rule verts_fold) (simp_all add: after_faces_def after_edges_def)
  show ?thesis
    unfolding getCCGDerivedMesh_def Let_def faces_fold e v ..
qed

text \<open>What the runs of writes leave at each index.\<close>

lemma fold_write_next:
  "fold (\<lambda>j. write_next (g j)) [0..<k] (Some (p0, a))
   = Some (p0 + k, \<lambda>n. if p0 \<le> n \<and> n < p0 + k then g (n - p0) else a n)"
proof (induction k)
  case 0
  show ?case by (simp add: fun_eq_iff)
next
  case (Suc k)
  show ?case
    by (simp only: upt_Suc_append [OF le0] fold_append comp_apply fold_simps Suc)
       (auto simp: write_next_def fun_eq_iff less_Suc_eq)
qed

lemma fold_fill_range:
  "fold (\<lambda>j. fill_range (g j) (lo + j * wd) wd) [0..<k] (Some a)
   = Some (\<lambda>n. if lo \<le> n \<and> n < lo + k * wd then g ((n - lo) div wd) else a n)"
proof (induction k)
  case 0
  show ?case by (simp add: fun_eq_iff)
next
  case (Suc k)
  have "(\<lambda>n. if lo + k * wd \<le> n \<and> n < lo + k * wd + wd then g k
             else if lo \<le> n \<and> n < lo + k * wd then g ((n - lo) div wd) else a n)
        = (\<lambda>n. if lo \<le> n \<and> n < lo + Suc k * wd then g ((n - lo) div wd) else a n)"
  proof (rule ext)
    fix n
    show "(if lo + k * wd \<le> n \<and> n < lo + k * wd + wd then g k
           else if lo \<le> n \<and> n < lo + k * wd then g ((n - lo) div wd) else a n)
        = (if lo \<le> n \<and> n < lo + Suc k * wd then g ((n - lo) div wd) else a n)"
    proof (cases "lo + k * wd \<le> n \<and> n < lo + k * wd + wd")
      case True
      then have "0 < wd" by auto
      from True have "k * wd \<le> n - lo" "n - lo < k * wd + wd" by auto
      then have "(n - lo) div wd = k"
        using \<open>0 < wd\<close> by (auto simp: div_nat_eqI mult.commute)
      with True show ?thesis by (simp add: add.commute)
    next
      case False
      then show ?thesis by (auto simp: add.commute add.left_commute)
    qed
  qed
  then show ?case
    by (simp only: upt_Suc_append [OF le0] fold_append comp_apply fold_simps Suc)
       (simp add: fill_range_def)
qed

lemma fold_write_run:
  "\<exists>a'. fold (\<lambda>j. write_run (g j) (c j)) [0..<k] (Some (0, a))
          = Some (sum_list (map c [0..<k]), a')
        \<and> (\<forall>j<k. \<forall>q<c j. a' (sum_list (map c [0..<j]) + q) = g j)
        \<and> (\<forall>n\<ge>sum_list (map c [0..<k]). a' n = a n)"
proof (induction k)
  case 0
  show ?case by simp
next
  case (Suc k)
  let ?T = "\<lambda>k. sum_list (map c [0..<k])"
  from Suc obtain a' where a': "fold (\<lambda>j. write_run (g j) (c j)) [0..<k] (Some (0, a)) = Some (?T k, a')"
    "\<forall>j<k. \<forall>q<c j. a' (?T j + q) = g j" "\<forall>n\<ge>?T k. a' n = a n"
    by blast
  let ?a'' = "\<lambda>n. if ?T k \<le> n \<and> n < ?T k + c k then g k else a' n"
  have step: "fold (\<lambda>j. write_run (g j) (c j)) [0..<Suc k] (Some (0, a)) = Some (?T (Suc k), ?a'')"
    by (simp only: upt_Suc_append [OF le0] fold_append comp_apply fold_simps a'(1))
       (simp add: write_run_def)
  have mono: "?T j + c j \<le> ?T k" if "j < k" for j
    using that
  proof (induction k)
    case 0
    then show ?case by simp
  next
    case (Suc k)
    then show ?case by (cases "j = k") auto
  qed
  have old: "\<forall>j<Suc k. \<forall>q<c j. ?a'' (?T j + q) = g j"
  proof (intro allI impI)
    fix j q assume j: "j < Suc k" and q: "q < c j"
    show "?a'' (?T j + q) = g j"
    proof (cases "j = k")
      case True
      with q show ?thesis by simp
    next
      case False
      with j have jk: "j < k" by simp
      from mono[OF jk] q have "?T j + q < ?T k" by simp
      with a'(2) jk q show ?thesis by simp
    qed
  qed
  have rest: "\<forall>n\<ge>?T (Suc k). ?a'' n = a n"
    using a'(3) by simp
  from step old rest show ?case by blast
qed

lemma write_run_Some:
  "write_run v k (Some (0, a)) = Some (k, \<lambda>n. if n < k then v else a n)"
  by (simp add: write_run_def)

lemma vert_layer_final:
  "vertOrigIndex (getCCGDerivedMesh ss base (Some va) el fl pl) =
     Some (verts_before ss (ccgSubSurf_getNumFaces ss)
             + ccgSubSurf_getNumEdges ss * (ss_edgeSize ss - 2) + ccgSubSurf_getNumVerts ss,
           \<lambda>n. if verts_before ss (ccgSubSurf_getNumFaces ss)
                     + ccgSubSurf_getNumEdges ss * (ss_edgeSize ss - 2) \<le> n
                  \<and> n < verts_before ss (ccgSubSurf_getNumFaces ss)
                        + ccgSubSurf_getNumEdges ss * (ss_edgeSize ss - 2)
                        + ccgSubSurf_getNumVerts ss
                then ccgDM_getVertMapIndex ss
                       (n - (verts_before ss (ccgSubSurf_getNumFaces ss)
                             + ccgSubSurf_getNumEdges ss * (ss_edgeSize ss - 2)))
                else if n < verts_before ss (ccgSubSurf_getNumFaces ss)
                            + ccgSubSurf_getNumEdges ss * (ss_edgeSize ss - 2)
                     then ORIGINDEX_NONE else va n)"
proof -
  let ?F = "verts_before ss (ccgSubSurf_getNumFaces ss)"
  let ?E = "ccgSubSurf_getNumEdges ss * (ss_edgeSize ss - 2)"
  have "write_run ORIGINDEX_NONE ?E (write_run ORIGINDEX_NONE ?F (Some (0, va)))
        = write_run ORIGINDEX_NONE (?F + ?E) (Some (0, va))"
    by (rule write_run_add)
  also have "\<dots> = Some (?F + ?E, \<lambda>n. if n < ?F + ?E then ORIGINDEX_NONE else va n)"
    by (rule write_run_Some)
  finally have "write_run ORIGINDEX_NONE ?E (write_run ORIGINDEX_NONE ?F (Some (0, va)))
        = Some (?F + ?E, \<lambda>n. if n < ?F + ?E then ORIGINDEX_NONE else va n)" .
  then show ?thesis
    unfolding getCCGDerivedMesh_eq
    by (simp add: after_verts_def after_edges_def after_faces_def fold_write_next
          cong: if_cong)
qed

lemma edge_layer_final:
  "edgeOrigIndex (getCCGDerivedMesh ss base vl (Some ea) fl pl) =
     Some (\<lambda>n. if edges_before ss (ccgSubSurf_getNumFaces ss) \<le> n
                  \<and> n < edges_before ss (ccgSubSurf_getNumFaces ss)
                        + ccgSubSurf_getNumEdges ss * (ss_edgeSize ss - 1)
                then ccgDM_getEdgeMapIndex ss
                       ((n - edges_before ss (ccgSubSurf_getNumFaces ss)) div (ss_edgeSize ss - 1))
                else if n < edges_before ss (ccgSubSurf_getNumFaces ss)
                     then ORIGINDEX_NONE else ea n)"
  unfolding getCCGDerivedMesh_eq
  by (simp add: after_verts_def after_edges_def after_faces_def fill_range_def fold_fill_range
        cong: if_cong)

lemma face_layer_final:
  "faceOrigIndex (getCCGDerivedMesh ss base vl el (Some fa) pl) =
     Some (quads_before ss (ccgSubSurf_getNumFaces ss),
           \<lambda>n. if n < quads_before ss (ccgSubSurf_getNumFaces ss) then int n else fa n)"
  unfolding getCCGDerivedMesh_eq
  by (simp add: after_verts_def after_edges_def after_faces_def count_run_def cong: if_cong)

lemma poly_layer_final:
  "\<exists>p'. polyOrigIndex (getCCGDerivedMesh ss base vl el fl (Some pa)) =
           Some (quads_before ss (ccgSubSurf_getNumFaces ss), p')
        \<and> (\<forall>j<ccgSubSurf_getNumFaces ss. \<forall>q<face_quad_count ss j.
              p' (quads_before ss j + q) = poly_orig base j)"
proof -
  from fold_write_run[of "poly_orig base" "face_quad_count ss" "ccgSubSurf_getNumFaces ss" pa]
  obtain a' where
    "fold (\<lambda>j. write_run (poly_orig base j) (face_quad_count ss j))
        [0..<ccgSubSurf_getNumFaces ss] (Some (0, pa))
     = Some (sum_list (map (face_quad_count ss) [0..<ccgSubSurf_getNumFaces ss]), a')"
    "\<forall>j<ccgSubSurf_getNumFaces ss. \<forall>q<face_quad_count ss j.
        a' (sum_list (map (face_quad_count ss) [0..<j]) + q) = poly_orig base j"
    by blast
  then show ?thesis
    unfolding getCCGDerivedMesh_eq
    by (simp add: after_verts_def after_edges_def after_faces_def quads_before_def)
qed

lemma counters_final:
  "vertNum (getCCGDerivedMesh ss base vl el fl pl)
   = verts_before ss (ccgSubSurf_getNumFaces ss)
     + ccgSubSurf_getNumEdges ss * (ss_edgeSize ss - 2) + ccgSubSurf_getNumVerts ss"
  "edgeNum (getCCGDerivedMesh ss base vl el fl pl)
   = edges_before ss (ccgSubSurf_getNumFaces ss) + ccgSubSurf_getNumEdges ss * (ss_edgeSize ss - 1)"
  "faceNum (getCCGDerivedMesh ss base vl el fl pl) = quads_before ss (ccgSubSurf_getNumFaces ss)"
  unfolding getCCGDerivedMesh_eq
  by (simp_all add: after_verts_def after_edges_def after_faces_def)

lemma maps_final:
  "faceMap (getCCGDerivedMesh ss base vl el fl pl)
   = map (\<lambda>j. \<lparr>fm_startVert = verts_before ss j, fm_startEdge = edges_before ss j,
               fm_startFace = quads_before ss j\<rparr>) [0..<ccgSubSurf_getNumFaces ss]"
  "edgeMap (getCCGDerivedMesh ss base vl el fl pl)
   = map (\<lambda>j. \<lparr>em_startVert = verts_before ss (ccgSubSurf_getNumFaces ss) + j * (ss_edgeSize ss - 2),
               em_startEdge = edges_before ss (ccgSubSurf_getNumFaces ss) + j * (ss_edgeSize ss - 1)\<rparr>)
       [0..<ccgSubSurf_getNumEdges ss]"
  "vertMap (getCCGDerivedMesh ss base vl el fl pl)
   = map (\<lambda>j. verts_before ss (ccgSubSurf_getNumFaces ss)
               + ccgSubSurf_getNumEdges ss * (ss_edgeSize ss - 2) + j)
       [0..<ccgSubSurf_getNumVerts ss]"
  unfolding getCCGDerivedMesh_eq
  by (simp_all add: after_verts_def after_edges_def after_faces_def)

lemma user_data_final:
  "f < ccgSubSurf_getNumFaces ss \<Longrightarrow>
     faceUserData (ccg_ss (getCCGDerivedMesh ss base vl el fl pl)) f = int (verts_before ss f)"
  "e < ccgSubSurf_getNumEdges ss \<Longrightarrow>
     edgeUserData (ccg_ss (getCCGDerivedMesh ss base vl el fl pl)) e
     = int (verts_before ss (ccgSubSurf_getNumFaces ss) + e * (ss_edgeSize ss - 2))"
  "v < ccgSubSurf_getNumVerts ss \<Longrightarrow>
     vertUserData (ccg_ss (getCCGDerivedMesh ss base vl el fl pl)) v
     = int (verts_before ss (ccgSubSurf_getNumFaces ss)
            + ccgSubSurf_getNumEdges ss * (ss_edgeSize ss - 2) + v)"
  unfolding getCCGDerivedMesh_eq
  by (simp_all add: after_verts_def after_edges_def after_faces_def faceUserData_def
        edgeUserData_def vertUserData_def fold_faceUserData_user0 fold_edgeUserData_user0
        fold_vertUserData_user0 ccgSubSurf_getNumFaces_def ccgSubSurf_getNumEdges_def
        ccgSubSurf_getNumVerts_def)

lemma offsets_nonempty [simp]: "offsets s cs \<noteq> []"
  by (cases cs) simp_all

lemma offsets_append:
  "offsets s (xs @ ys) = butlast (offsets s xs) @ offsets (s + sum_list xs) ys"
  by (induction xs arbitrary: s) (simp_all add: add.assoc)

lemma offsets_map_upt:
  "offsets s (map c [0..<n]) = map (\<lambda>j. s + sum_list (map c [0..<j])) [0..<Suc n]"
proof (induction n)
  case 0
  show ?case by simp
next
  case (Suc n)
  have "offsets s (map c [0..<Suc n]) = offsets s (map c [0..<n] @ [c n])" by simp
  also have "\<dots> = butlast (offsets s (map c [0..<n]))
                    @ offsets (s + sum_list (map c [0..<n])) [c n]"
    by (rule offsets_append)
  also have "butlast (offsets s (map c [0..<n])) = map (\<lambda>j. s + sum_list (map c [0..<j])) [0..<n]"
    unfolding Suc by (simp add: butlast_snoc)
  finally show ?case by (simp add: add.assoc)
qed

lemma sum_list_const_upt: "sum_list (map (\<lambda>_. wd) [0..<j]) = j * (wd :: nat)"
  by (induction j) simp_all

lemma offsets_replicate:
  "offsets s (replicate n wd) = map (\<lambda>j. s + j * wd) [0..<Suc n]"
proof -
  have "replicate n wd = map (\<lambda>_. wd) [0..<n]"
    by (simp add: map_replicate_trivial)
  then show ?thesis
    using offsets_map_upt[of s "\<lambda>_. wd" n] by (simp only: sum_list_const_upt)
qed

lemma butlast_map_upt_Suc: "butlast (map f [0..<Suc n]) = map f [0..<n]"
  by (simp add: butlast_snoc)

lemma verts_before_sum:
  "verts_before ss k
   = (\<Sum>f<k. 1 + ccgSubSurf_getFaceNumVerts ss f * (ss_gridSize ss - 2)
              + ccgSubSurf_getFaceNumVerts ss f * (ss_gridSize ss - 2)\<^sup>2)"
  by (induction k) (simp_all add: before_Suc face_vert_count_def power2_eq_square)

text \<open>
  C2. The total vertex count of the materialized mesh is the sum over the faces of
  \<open>1 + valence * (gridSize - 2) + valence * (gridSize - 2)\<^sup>2\<close>, plus
  \<open>edgeCount * (edgeSize - 2)\<close>, plus the base vertex count. The start offsets recorded in
  the face map, the edge map and the vertex map, in this order and closed by the total, are
  the offsets of consecutive ranges of exactly these lengths from 0 on: the ranges tile
  \<open>[0, total)\<close> without gap or overlap, faces first, then edges, then base vertices. The same
  start offsets are in slot 0 of the user data.
\<close>

theorem flattened_vertex_ranges:
  "(let st = getCCGDerivedMesh ss base vl el fl pl;
        totface = ccgSubSurf_getNumFaces ss;
        totedge = ccgSubSurf_getNumEdges ss;
        totvert = ccgSubSurf_getNumVerts ss;
        F = (\<Sum>f<totface. 1 + ccgSubSurf_getFaceNumVerts ss f * (ss_gridSize ss - 2)
                              + ccgSubSurf_getFaceNumVerts ss f * (ss_gridSize ss - 2)\<^sup>2);
        E = totedge * (ss_edgeSize ss - 2)
    in vertNum st = F + E + totvert
     \<and> map fm_startVert (faceMap st) @ map em_startVert (edgeMap st) @ vertMap st @ [vertNum st]
         = offsets 0 (map (face_vert_count ss) [0..<totface]
                      @ replicate totedge (ss_edgeSize ss - 2) @ replicate totvert 1)
     \<and> map fm_startVert (faceMap st) = map (verts_before ss) [0..<totface]
     \<and> verts_before ss totface = F
     \<and> map em_startVert (edgeMap st) = map (\<lambda>j. F + j * (ss_edgeSize ss - 2)) [0..<totedge]
     \<and> vertMap st = map (\<lambda>j. F + E + j) [0..<totvert]
     \<and> (\<forall>f<totface. faceUserData (ccg_ss st) f = int (verts_before ss f))
     \<and> (\<forall>e<totedge. edgeUserData (ccg_ss st) e = int (F + e * (ss_edgeSize ss - 2)))
     \<and> (\<forall>v<totvert. vertUserData (ccg_ss st) v = int (F + E + v)))"
proof -
  let ?st = "getCCGDerivedMesh ss base vl el fl pl"
  let ?nf = "ccgSubSurf_getNumFaces ss"
  let ?ne = "ccgSubSurf_getNumEdges ss"
  let ?nv = "ccgSubSurf_getNumVerts ss"
  let ?w = "ss_edgeSize ss - 2"
  let ?F = "verts_before ss ?nf"
  let ?E = "?ne * ?w"
  have fm: "map fm_startVert (faceMap ?st) = map (verts_before ss) [0..<?nf]"
    by (simp add: maps_final(1) comp_def)
  have em: "map em_startVert (edgeMap ?st) = map (\<lambda>j. ?F + j * ?w) [0..<?ne]"
    by (simp add: maps_final(2) comp_def)
  have vm: "vertMap ?st = map (\<lambda>j. ?F + ?E + j) [0..<?nv]"
    by (rule maps_final(3))
  have vn: "vertNum ?st = ?F + ?E + ?nv" by (rule counters_final(1))
  have A: "offsets 0 (map (face_vert_count ss) [0..<?nf])
           = map (verts_before ss) [0..<Suc ?nf]"
    unfolding offsets_map_upt by (simp add: verts_before_def)
  have sA: "sum_list (map (face_vert_count ss) [0..<?nf]) = ?F" by (simp add: verts_before_def)
  have B: "offsets ?F (replicate ?ne ?w) = map (\<lambda>j. ?F + j * ?w) [0..<Suc ?ne]"
    by (rule offsets_replicate)
  have C: "offsets (?F + ?E) (replicate ?nv 1) = map (\<lambda>j. ?F + ?E + j) [0..<Suc ?nv]"
    using offsets_replicate[of "?F + ?E" ?nv 1] by simp
  have "offsets 0 (map (face_vert_count ss) [0..<?nf] @ replicate ?ne ?w @ replicate ?nv 1)
        = butlast (offsets 0 (map (face_vert_count ss) [0..<?nf]))
          @ butlast (offsets ?F (replicate ?ne ?w))
          @ offsets (?F + ?E) (replicate ?nv 1)"
    by (simp only: offsets_append sA add_0 sum_list_replicate of_nat_id)
  also have "\<dots> = map (verts_before ss) [0..<?nf] @ map (\<lambda>j. ?F + j * ?w) [0..<?ne]
                    @ map (\<lambda>j. ?F + ?E + j) [0..<Suc ?nv]"
    unfolding A B C by (simp only: butlast_map_upt_Suc)
  also have "\<dots> = map fm_startVert (faceMap ?st) @ map em_startVert (edgeMap ?st)
                    @ vertMap ?st @ [vertNum ?st]"
    unfolding fm em vm vn by simp
  finally have off: "map fm_startVert (faceMap ?st) @ map em_startVert (edgeMap ?st)
                       @ vertMap ?st @ [vertNum ?st]
                     = offsets 0 (map (face_vert_count ss) [0..<?nf] @ replicate ?ne ?w
                                  @ replicate ?nv 1)"
    by (rule sym)
  have ud: "\<forall>f<?nf. faceUserData (ccg_ss ?st) f = int (verts_before ss f)"
    "\<forall>e<?ne. edgeUserData (ccg_ss ?st) e = int (?F + e * ?w)"
    "\<forall>v<?nv. vertUserData (ccg_ss ?st) v = int (?F + ?E + v)"
  proof -
    show "\<forall>f<?nf. faceUserData (ccg_ss ?st) f = int (verts_before ss f)"
    proof (intro allI impI)
      fix f assume "f < ?nf"
      then show "faceUserData (ccg_ss ?st) f = int (verts_before ss f)"
        by (rule user_data_final(1))
    qed
    show "\<forall>e<?ne. edgeUserData (ccg_ss ?st) e = int (?F + e * ?w)"
    proof (intro allI impI)
      fix e assume "e < ?ne"
      then show "edgeUserData (ccg_ss ?st) e = int (?F + e * ?w)"
        by (rule user_data_final(2))
    qed
    show "\<forall>v<?nv. vertUserData (ccg_ss ?st) v = int (?F + ?E + v)"
    proof (intro allI impI)
      fix v assume "v < ?nv"
      then show "vertUserData (ccg_ss ?st) v = int (?F + ?E + v)"
        by (rule user_data_final(3))
    qed
  qed
  show ?thesis
    unfolding Let_def verts_before_sum[symmetric]
    using vn off fm em vm ud(1) ud(2) ud(3) by blast
qed


text \<open>
  C4, as the code has it. In the original-index layers of the materialized mesh (each
  where the mesh has the layer): every face-owned and every edge-owned vertex carries
  \<open>ORIGINDEX_NONE\<close>, and the final base vertices carry slot 1 of their user data, the base
  vertex's original index. Every edge inside a face grid carries \<open>ORIGINDEX_NONE\<close>, while
  each of the \<open>edgeSize - 1\<close> pieces of a base edge carries that edge's original index.
  Every generated polygon carries the original index of the base polygon it was cut from
  (read through the base mesh's own layer when there is one), and every tessellated face
  carries its own number.
\<close>

theorem original_index_layers:
  "(let st = getCCGDerivedMesh ss base vl el fl pl;
        totface = ccgSubSurf_getNumFaces ss;
        totedge = ccgSubSurf_getNumEdges ss;
        totvert = ccgSubSurf_getNumVerts ss;
        FE = verts_before ss totface + totedge * (ss_edgeSize ss - 2);
        GE = edges_before ss totface;
        Q = quads_before ss totface
    in (\<forall>va. vl = Some va \<longrightarrow>
          (\<exists>v'. vertOrigIndex st = Some (FE + totvert, v')
             \<and> (\<forall>n<FE. v' n = ORIGINDEX_NONE)
             \<and> (\<forall>j<totvert. v' (FE + j) = ccgDM_getVertMapIndex ss j)))
     \<and> (\<forall>ea. el = Some ea \<longrightarrow>
          (\<exists>e'. edgeOrigIndex st = Some e'
             \<and> (\<forall>n<GE. e' n = ORIGINDEX_NONE)
             \<and> (\<forall>j<totedge. \<forall>i < ss_edgeSize ss - 1.
                   e' (GE + j * (ss_edgeSize ss - 1) + i) = ccgDM_getEdgeMapIndex ss j)))
     \<and> (\<forall>pa. pl = Some pa \<longrightarrow>
          (\<exists>p'. polyOrigIndex st = Some (Q, p')
             \<and> (\<forall>j<totface. \<forall>q<face_quad_count ss j.
                   p' (quads_before ss j + q) = poly_orig base j)))
     \<and> (\<forall>fa. fl = Some fa \<longrightarrow>
          (\<exists>f'. faceOrigIndex st = Some (Q, f') \<and> (\<forall>n<Q. f' n = int n)))
     \<and> vertNum st = FE + totvert
     \<and> edgeNum st = GE + totedge * (ss_edgeSize ss - 1)
     \<and> faceNum st = Q)"
proof -
  let ?st = "getCCGDerivedMesh ss base vl el fl pl"
  let ?nf = "ccgSubSurf_getNumFaces ss"
  let ?ne = "ccgSubSurf_getNumEdges ss"
  let ?nv = "ccgSubSurf_getNumVerts ss"
  let ?FE = "verts_before ss ?nf + ?ne * (ss_edgeSize ss - 2)"
  let ?GE = "edges_before ss ?nf"
  let ?Q = "quads_before ss ?nf"
  let ?w = "ss_edgeSize ss - 1"
  have v: "\<forall>va. vl = Some va \<longrightarrow>
          (\<exists>v'. vertOrigIndex ?st = Some (?FE + ?nv, v')
             \<and> (\<forall>n<?FE. v' n = ORIGINDEX_NONE)
             \<and> (\<forall>j<?nv. v' (?FE + j) = ccgDM_getVertMapIndex ss j))"
  proof (intro allI impI)
    fix va assume "vl = Some va"
    then show "\<exists>v'. vertOrigIndex ?st = Some (?FE + ?nv, v')
             \<and> (\<forall>n<?FE. v' n = ORIGINDEX_NONE)
             \<and> (\<forall>j<?nv. v' (?FE + j) = ccgDM_getVertMapIndex ss j)"
      by (simp add: vert_layer_final)
  qed
  have e: "\<forall>ea. el = Some ea \<longrightarrow>
          (\<exists>e'. edgeOrigIndex ?st = Some e'
             \<and> (\<forall>n<?GE. e' n = ORIGINDEX_NONE)
             \<and> (\<forall>j<?ne. \<forall>i<?w. e' (?GE + j * ?w + i) = ccgDM_getEdgeMapIndex ss j))"
  proof (intro allI impI)
    fix ea assume el: "el = Some ea"
    have idx: "?GE + j * ?w + i < ?GE + ?ne * ?w \<and> (?GE + j * ?w + i - ?GE) div ?w = j"
      if "j < ?ne" "i < ?w" for j i
    proof -
      have "j * ?w + i < ?ne * ?w" using that by (rule index_in_block)
      moreover have "(j * ?w + i) div ?w = j" using that(2) by simp
      ultimately show ?thesis by (simp add: add.assoc)
    qed
    show "\<exists>e'. edgeOrigIndex ?st = Some e'
             \<and> (\<forall>n<?GE. e' n = ORIGINDEX_NONE)
             \<and> (\<forall>j<?ne. \<forall>i<?w. e' (?GE + j * ?w + i) = ccgDM_getEdgeMapIndex ss j)"
      unfolding el edge_layer_final using idx by (simp add: add.assoc)
  qed
  have p: "\<forall>pa. pl = Some pa \<longrightarrow>
          (\<exists>p'. polyOrigIndex ?st = Some (?Q, p')
             \<and> (\<forall>j<?nf. \<forall>q<face_quad_count ss j.
                   p' (quads_before ss j + q) = poly_orig base j))"
    using poly_layer_final by blast
  have f: "\<forall>fa. fl = Some fa \<longrightarrow>
          (\<exists>f'. faceOrigIndex ?st = Some (?Q, f') \<and> (\<forall>n<?Q. f' n = int n))"
    by (simp add: face_layer_final)
  show ?thesis
    unfolding Let_def
    by (intro conjI v e p f counters_final)
qed

lemma two_quads_sizes:
  "ccgSubSurf_getNumFaces two_quads = 2" "ccgSubSurf_getNumEdges two_quads = 7"
  "ccgSubSurf_getNumVerts two_quads = 6" "ss_gridSize two_quads = 3" "ss_edgeSize two_quads = 5"
  "ccgSubSurf_getFaceNumVerts two_quads 0 = 4" "ccgSubSurf_getFaceNumVerts two_quads 1 = 4"
  "ccgSubSurf_getFaceNumVerts two_quads (Suc 0) = 4"
  by (simp_all add: two_quads_def ccgSubSurf_getNumFaces_def ccgSubSurf_getNumEdges_def
        ccgSubSurf_getNumVerts_def ccgSubSurf_getFaceNumVerts_def)

lemma two_quads_counts:
  "verts_before two_quads 1 = 9" "verts_before two_quads 2 = 18"
  "edges_before two_quads 2 = 48"
  "quads_before two_quads 1 = 16" "quads_before two_quads 2 = 32"
  "face_quad_count two_quads 1 = 16" "face_vert_count two_quads 0 = 9"
  "face_vert_count two_quads 1 = 9"
  by (simp_all add: verts_before_def edges_before_def quads_before_def face_vert_count_def
        face_edge_count_def face_quad_count_def two_quads_sizes upt_rec [of _ "numeral _"]
        One_nat_def upt_rec [of _ 1])



lemma two_quads_counts_Suc:
  "face_quad_count two_quads (Suc 0) = 16" "quads_before two_quads (Suc 0) = 16"
  "face_vert_count two_quads (Suc 0) = 9"
  using two_quads_counts by simp_all

lemma two_quads_consistent: "consistent_topology two_quads"
  by (simp add: consistent_topology_def face_ok_def edge_joins_def two_quads_def Let_def
        ccgSubSurf_getFaceNumVerts_def ccgSubSurf_getFaceVert_def ccgSubSurf_getFaceEdge_def
        ccgSubSurf_getEdgeVert0_def ccgSubSurf_getEdgeVert1_def
        upt_rec [of _ "numeral _"] upt_rec [of _ 1] One_nat_def)

lemma sum_lessThan_two: "(\<Sum>f<(2 :: nat). h f) = h 0 + (h 1 :: nat)"
  by (simp add: numeral_2_eq_2)

theorem flattened_vertex_ranges_witness:
  "vertNum (getCCGDerivedMesh two_quads None None None None None) = 45
   \<and> map fm_startVert (faceMap (getCCGDerivedMesh two_quads None None None None None))
       @ map em_startVert (edgeMap (getCCGDerivedMesh two_quads None None None None None))
       @ vertMap (getCCGDerivedMesh two_quads None None None None None)
       @ [vertNum (getCCGDerivedMesh two_quads None None None None None)]
     = [0, 9, 18, 21, 24, 27, 30, 33, 36, 39, 40, 41, 42, 43, 44, 45]
   \<and> edgeUserData (ccg_ss (getCCGDerivedMesh two_quads None None None None None)) 1 = 21"
proof -
  let ?st = "getCCGDerivedMesh two_quads None None None None None"
  note t = flattened_vertex_ranges [of two_quads None None None None None,
              unfolded Let_def two_quads_sizes sum_lessThan_two]
  have F: "1 + 4 * (3 - 2) + 4 * (3 - 2)\<^sup>2 + (1 + 4 * (3 - 2) + 4 * (3 - 2)\<^sup>2) = (18 :: nat)"
    by simp
  from t have "vertNum ?st
      = 1 + 4 * (3 - 2) + 4 * (3 - 2)\<^sup>2 + (1 + 4 * (3 - 2) + 4 * (3 - 2)\<^sup>2) + 7 * (5 - 2) + 6"
    by (rule conjunct1)
  then have a: "vertNum ?st = 45" by simp
  from t have "map fm_startVert (faceMap ?st) @ map em_startVert (edgeMap ?st) @ vertMap ?st
                 @ [vertNum ?st]
               = offsets 0 (map (face_vert_count two_quads) [0..<2] @ replicate 7 (5 - 2)
                            @ replicate 6 1)"
    by (rule conjunct2 [THEN conjunct1])
  also have "\<dots> = offsets 0 ([9, 9] @ [3, 3, 3, 3, 3, 3, 3] @ [1, 1, 1, 1, 1, 1])"
  proof -
    have m: "map (face_vert_count two_quads) [0..<2] = [9, 9]"
      using two_quads_counts(7,8) by (simp add: numeral_2_eq_2)
    have r7: "replicate 7 (5 - 2) = [3, 3, 3, 3, 3, 3, 3 :: nat]"
      by (simp add: numeral_eq_Suc)
    have r6: "replicate 6 1 = [1, 1, 1, 1, 1, 1 :: nat]"
      by (simp add: numeral_eq_Suc)
    show ?thesis unfolding m r7 r6 ..
  qed
  also have "\<dots> = [0, 9, 18, 21, 24, 27, 30, 33, 36, 39, 40, 41, 42, 43, 44, 45]"
    by simp
  finally have b: "map fm_startVert (faceMap ?st) @ map em_startVert (edgeMap ?st) @ vertMap ?st
                 @ [vertNum ?st]
               = [0, 9, 18, 21, 24, 27, 30, 33, 36, 39, 40, 41, 42, 43, 44, 45]" .
  from t have "\<forall>e<7. edgeUserData (ccg_ss ?st) e
       = int (1 + 4 * (3 - 2) + 4 * (3 - 2)\<^sup>2 + (1 + 4 * (3 - 2) + 4 * (3 - 2)\<^sup>2) + e * (5 - 2))"
    by blast
  then have "edgeUserData (ccg_ss ?st) 1
       = int (1 + 4 * (3 - 2) + 4 * (3 - 2)\<^sup>2 + (1 + 4 * (3 - 2) + 4 * (3 - 2)\<^sup>2) + 1 * (5 - 2))"
    by simp
  then have c: "edgeUserData (ccg_ss ?st) 1 = 21" by simp
  from a b c show ?thesis by (intro conjI)
qed

theorem original_index_layers_witness:
  "snd (the (vertOrigIndex (getCCGDerivedMesh two_quads None (Some zero_layer) (Some zero_layer)
                              (Some zero_layer) (Some zero_layer)))) 38 = ORIGINDEX_NONE
   \<and> snd (the (vertOrigIndex (getCCGDerivedMesh two_quads None (Some zero_layer)
                                (Some zero_layer) (Some zero_layer) (Some zero_layer)))) 44 = 5
   \<and> the (edgeOrigIndex (getCCGDerivedMesh two_quads None (Some zero_layer) (Some zero_layer)
                           (Some zero_layer) (Some zero_layer))) 47 = ORIGINDEX_NONE
   \<and> the (edgeOrigIndex (getCCGDerivedMesh two_quads None (Some zero_layer) (Some zero_layer)
                           (Some zero_layer) (Some zero_layer))) 61 = 3
   \<and> snd (the (polyOrigIndex (getCCGDerivedMesh two_quads None (Some zero_layer)
                                (Some zero_layer) (Some zero_layer) (Some zero_layer)))) 18 = 1
   \<and> snd (the (faceOrigIndex (getCCGDerivedMesh two_quads None (Some zero_layer)
                                (Some zero_layer) (Some zero_layer) (Some zero_layer)))) 18 = 18"
proof -
  let ?z = "Some zero_layer"
  let ?st = "getCCGDerivedMesh two_quads None ?z ?z ?z ?z"
  note t = original_index_layers [of two_quads None ?z ?z ?z ?z,
              unfolded Let_def two_quads_sizes two_quads_counts]
  from t obtain v' where v: "vertOrigIndex ?st = Some (18 + 7 * (5 - 2) + 6, v')"
    "\<forall>n<18 + 7 * (5 - 2). v' n = ORIGINDEX_NONE"
    "\<forall>j<6. v' (18 + 7 * (5 - 2) + j) = ccgDM_getVertMapIndex two_quads j"
    by blast
  have "v' (18 + 7 * (5 - 2) + 5) = ccgDM_getVertMapIndex two_quads 5"
    using v(3) [rule_format, of 5] by simp
  then have a: "snd (the (vertOrigIndex ?st)) 38 = ORIGINDEX_NONE"
    "snd (the (vertOrigIndex ?st)) 44 = 5"
    using v(1,2) by (simp_all add: ccgDM_getVertMapIndex_def two_quads_def)
  from t obtain e' where e: "edgeOrigIndex ?st = Some e'"
    "\<forall>n<48. e' n = ORIGINDEX_NONE"
    "\<forall>j<7. \<forall>i<5 - 1. e' (48 + j * (5 - 1) + i) = ccgDM_getEdgeMapIndex two_quads j"
    by blast
  have "e' (48 + 3 * (5 - 1) + 1) = ccgDM_getEdgeMapIndex two_quads 3"
    using e(3) [rule_format, of 3 1] by simp
  then have b: "the (edgeOrigIndex ?st) 47 = ORIGINDEX_NONE" "the (edgeOrigIndex ?st) 61 = 3"
    using e(1,2) by (simp_all add: ccgDM_getEdgeMapIndex_def two_quads_def)
  from t obtain p' where p: "polyOrigIndex ?st = Some (32, p')"
    "\<forall>j<2. \<forall>q<face_quad_count two_quads j. p' (quads_before two_quads j + q) = poly_orig None j"
    by blast
  have "p' (quads_before two_quads 1 + 2) = poly_orig None 1"
    using p(2) [rule_format, of 1 2] by (simp add: two_quads_counts_Suc)
  then have c: "snd (the (polyOrigIndex ?st)) 18 = 1"
    using p(1) by (simp add: two_quads_counts two_quads_counts_Suc poly_orig_def)
  from t obtain f' where f: "faceOrigIndex ?st = Some (32, f')" "\<forall>n<32. f' n = int n"
    by blast
  then have d: "snd (the (faceOrigIndex ?st)) 18 = 18" by simp
  from a b c d show ?thesis by (intro conjI)
qed

text \<open>
  On the two quads, with every layer present: flattened edge 61 is a piece of base edge 3
  and carries 3, and polygon 18 was cut from base polygon 1 and carries 1, where the
  sentinel is -1.
\<close>

theorem synthetic_elements_counterexample:
  "the (edgeOrigIndex (getCCGDerivedMesh two_quads None (Some zero_layer) (Some zero_layer)
                         (Some zero_layer) (Some zero_layer))) 61 = 3
   \<and> snd (the (polyOrigIndex (getCCGDerivedMesh two_quads None (Some zero_layer)
                                (Some zero_layer) (Some zero_layer) (Some zero_layer)))) 18 = 1
   \<and> ORIGINDEX_NONE = - 1"
proof -
  let ?z = "Some zero_layer"
  let ?st = "getCCGDerivedMesh two_quads None ?z ?z ?z ?z"
  have a: "the (edgeOrigIndex ?st) 61 = 3"
    unfolding edge_layer_final two_quads_sizes two_quads_counts
    by (simp add: ccgDM_getEdgeMapIndex_def two_quads_def)
  from poly_layer_final[of two_quads None ?z ?z ?z zero_layer]
  obtain p' where p: "polyOrigIndex ?st = Some (quads_before two_quads 2, p')"
    "\<forall>j<2. \<forall>q<face_quad_count two_quads j. p' (quads_before two_quads j + q) = poly_orig None j"
    unfolding two_quads_sizes by blast
  have "p' (quads_before two_quads 1 + 2) = poly_orig None 1"
    using p(2) [rule_format, of 1 2] by (simp add: two_quads_counts_Suc)
  then have b: "snd (the (polyOrigIndex ?st)) 18 = 1"
    using p(1) by (simp add: two_quads_counts two_quads_counts_Suc poly_orig_def)
  have c: "ORIGINDEX_NONE = - 1" by (simp add: ORIGINDEX_NONE_def)
  from a b c show ?thesis by (intro conjI)
qed

subsection \<open>Shared grid boundaries\<close>

lemma face_ok_D:
  assumes "face_ok ss f" "S < ccgSubSurf_getFaceNumVerts ss f"
  shows "edge_joins ss (ccgSubSurf_getFaceEdge ss f S) (ccgSubSurf_getFaceVert ss f S)
           (ccgSubSurf_getFaceVert ss f ((S + 1) mod ccgSubSurf_getFaceNumVerts ss f))"
  using assms by (auto simp: face_ok_def Let_def list_all_iff)

lemma prev_succ:
  fixes S n :: nat
  assumes "S < n"
  shows "(S + n - 1) mod n < n" "((S + n - 1) mod n + 1) mod n = S"
proof -
  show "(S + n - 1) mod n < n" using assms by simp
  show "((S + n - 1) mod n + 1) mod n = S"
  proof (cases "S = 0")
    case True
    have "(n - 1) mod n = n - 1" using assms by simp
    then show ?thesis using True assms by simp
  next
    case False
    then have "S + n - 1 = (S - 1) + n" by simp
    then have "(S + n - 1) mod n = (S - 1) mod n" by (metis mod_add_self2)
    also have "\<dots> = S - 1" using assms by simp
    finally show ?thesis using False assms by simp
  qed
qed

lemma side_edge_ends:
  assumes ok: "face_ok ss f" and S: "S < ccgSubSurf_getFaceNumVerts ss f"
  shows "ccgSubSurf_getEdgeVert0 ss (side_edge ss f S sd) \<noteq> ccgSubSurf_getEdgeVert1 ss (side_edge ss f S sd)"
    and "ccgSubSurf_getFaceVert ss f S = ccgSubSurf_getEdgeVert0 ss (side_edge ss f S sd)
         \<or> ccgSubSurf_getFaceVert ss f S = ccgSubSurf_getEdgeVert1 ss (side_edge ss f S sd)"
proof -
  let ?n = "ccgSubSurf_getFaceNumVerts ss f"
  have j: "\<exists>a. edge_joins ss (side_edge ss f S sd) (ccgSubSurf_getFaceVert ss f S) a
             \<or> edge_joins ss (side_edge ss f S sd) a (ccgSubSurf_getFaceVert ss f S)"
  proof (cases sd)
    case AlongX
    then show ?thesis using face_ok_D[OF ok S] by (auto simp: side_edge_def)
  next
    case AlongY
    have "edge_joins ss (ccgSubSurf_getFaceEdge ss f ((S + ?n - 1) mod ?n))
            (ccgSubSurf_getFaceVert ss f ((S + ?n - 1) mod ?n))
            (ccgSubSurf_getFaceVert ss f S)"
      using face_ok_D[OF ok prev_succ(1)[OF S]] prev_succ(2)[OF S] by simp
    then show ?thesis using AlongY by (auto simp: side_edge_def)
  qed
  from j show "ccgSubSurf_getEdgeVert0 ss (side_edge ss f S sd) \<noteq> ccgSubSurf_getEdgeVert1 ss (side_edge ss f S sd)"
    by (auto simp: edge_joins_def)
  from j show "ccgSubSurf_getFaceVert ss f S = ccgSubSurf_getEdgeVert0 ss (side_edge ss f S sd)
         \<or> ccgSubSurf_getFaceVert ss f S = ccgSubSurf_getEdgeVert1 ss (side_edge ss f S sd)"
    by (auto simp: edge_joins_def)
qed

lemma getFaceIndex_corner:
  "getFaceIndex ss f S (gridSize - 1) (gridSize - 1) edgeSize gridSize
   = vertUserData ss (ccgSubSurf_getFaceVert ss f S)"
  by (simp add: getFaceIndex_def Let_def)

lemma getFaceIndex_x_side:
  "y \<noteq> gridSize - 1 \<Longrightarrow>
   getFaceIndex ss f S (gridSize - 1) y edgeSize gridSize
   = (if ccgSubSurf_getFaceVert ss f S = ccgSubSurf_getEdgeVert0 ss (ccgSubSurf_getFaceEdge ss f S)
      then edgeUserData ss (ccgSubSurf_getFaceEdge ss f S) + (gridSize - 1 - y) - 1
      else edgeUserData ss (ccgSubSurf_getFaceEdge ss f S) + (edgeSize - 2 - 1)
           - ((gridSize - 1 - y) - 1))"
  by (simp add: getFaceIndex_def Let_def)

lemma getFaceIndex_y_side:
  "x \<noteq> gridSize - 1 \<Longrightarrow>
   getFaceIndex ss f S x (gridSize - 1) edgeSize gridSize
   = (let e = ccgSubSurf_getFaceEdge ss f
                ((S + ccgSubSurf_getFaceNumVerts ss f - 1) mod ccgSubSurf_getFaceNumVerts ss f)
      in if ccgSubSurf_getFaceVert ss f S = ccgSubSurf_getEdgeVert0 ss e
         then edgeUserData ss e + (gridSize - 1 - x) - 1
         else edgeUserData ss e + (edgeSize - 2 - 1) - ((gridSize - 1 - x) - 1))"
  by (simp add: getFaceIndex_def Let_def)

lemma boundary_index_cases:
  "boundary_index ss f S sd d edgeSize gridSize
   = (if d = 0 then vertUserData ss (ccgSubSurf_getFaceVert ss f S)
      else if ccgSubSurf_getFaceVert ss f S = ccgSubSurf_getEdgeVert0 ss (side_edge ss f S sd)
      then edgeUserData ss (side_edge ss f S sd) + d - 1
      else edgeUserData ss (side_edge ss f S sd) + (edgeSize - 2 - 1) - (d - 1))"
proof (cases sd)
  case AlongX
  show ?thesis
  proof (cases "d = 0")
    case True
    then show ?thesis
      using AlongX by (simp add: boundary_index_def side_coords_def getFaceIndex_corner)
  next
    case False
    then have "gridSize - 1 - d \<noteq> gridSize - 1" by simp
    from getFaceIndex_x_side[OF this, of ss f S edgeSize] False AlongX
    show ?thesis by (simp add: boundary_index_def side_coords_def side_edge_def)
  qed
next
  case AlongY
  show ?thesis
  proof (cases "d = 0")
    case True
    then show ?thesis
      using AlongY by (simp add: boundary_index_def side_coords_def getFaceIndex_corner)
  next
    case False
    then have "gridSize - 1 - d \<noteq> gridSize - 1" by simp
    from getFaceIndex_y_side[OF this, of ss f S edgeSize] False AlongY
    show ?thesis by (simp add: boundary_index_def side_coords_def side_edge_def Let_def)
  qed
qed

lemma boundary_index_edge:
  assumes ok: "face_ok ss f" and S: "S < ccgSubSurf_getFaceNumVerts ss f"
    and g: "1 < gridSize" "gridSize < edgeSize" and d: "0 \<le> d" "d \<le> gridSize - 1"
    and p: "edge_pos ss (side_edge ss f S sd) (ccgSubSurf_getFaceVert ss f S) d edgeSize = Some p"
  shows "boundary_index ss f S sd d edgeSize gridSize
         = getEdgeIndex ss (side_edge ss f S sd) p edgeSize"
proof -
  let ?e = "side_edge ss f S sd"
  let ?v = "ccgSubSurf_getFaceVert ss f S"
  note ends = side_edge_ends[OF ok S, of sd]
  show ?thesis
  proof (cases "?v = ccgSubSurf_getEdgeVert0 ss ?e")
    case True
    with p have pd: "p = d" by (simp add: edge_pos_def)
    have "d \<noteq> edgeSize - 1" using d g by simp
    then show ?thesis
      unfolding boundary_index_cases pd using True
      by (simp add: getEdgeIndex_def Let_def)
  next
    case False
    with ends(2) have v1: "?v = ccgSubSurf_getEdgeVert1 ss ?e" by simp
    with p False have pd: "p = edgeSize - 1 - d" by (simp add: edge_pos_def)
    have ne: "edgeSize - 1 - d \<noteq> 0" "edgeSize - 1 \<noteq> 0" using d g by simp_all
    show ?thesis
      unfolding boundary_index_cases pd using False v1 ne d
      by (simp add: getEdgeIndex_def Let_def)
  qed
qed

lemma edge_pos_defined:
  assumes ok: "face_ok ss f" and S: "S < ccgSubSurf_getFaceNumVerts ss f"
  shows "\<exists>p. edge_pos ss (side_edge ss f S sd) (ccgSubSurf_getFaceVert ss f S) d edgeSize = Some p"
  using side_edge_ends(2)[OF ok S, of sd] by (auto simp: edge_pos_def)

lemma topology_final:
  "ccgSubSurf_getNumFaces (ccg_ss (getCCGDerivedMesh ss base vl el fl pl)) = ccgSubSurf_getNumFaces ss"
  "length (ss_edges (ccg_ss (getCCGDerivedMesh ss base vl el fl pl))) = length (ss_edges ss)"
  "length (ss_verts (ccg_ss (getCCGDerivedMesh ss base vl el fl pl))) = length (ss_verts ss)"
  "length (face_edges (ss_faces (ccg_ss (getCCGDerivedMesh ss base vl el fl pl)) ! f))
   = length (face_edges (ss_faces ss ! f))"
  "ccgSubSurf_getFaceNumVerts (ccg_ss (getCCGDerivedMesh ss base vl el fl pl)) f
   = ccgSubSurf_getFaceNumVerts ss f"
  "ccgSubSurf_getFaceVert (ccg_ss (getCCGDerivedMesh ss base vl el fl pl)) f S
   = ccgSubSurf_getFaceVert ss f S"
  "ccgSubSurf_getFaceEdge (ccg_ss (getCCGDerivedMesh ss base vl el fl pl)) f S
   = ccgSubSurf_getFaceEdge ss f S"
  "ccgSubSurf_getEdgeVert0 (ccg_ss (getCCGDerivedMesh ss base vl el fl pl)) e
   = ccgSubSurf_getEdgeVert0 ss e"
  "ccgSubSurf_getEdgeVert1 (ccg_ss (getCCGDerivedMesh ss base vl el fl pl)) e
   = ccgSubSurf_getEdgeVert1 ss e"
  unfolding getCCGDerivedMesh_eq
  by (simp_all add: after_verts_def after_edges_def after_faces_def ccgSubSurf_getNumFaces_def
        ccgSubSurf_getFaceNumVerts_def ccgSubSurf_getFaceVert_def ccgSubSurf_getFaceEdge_def
        ccgSubSurf_getEdgeVert0_def ccgSubSurf_getEdgeVert1_def)

lemma consistent_final:
  "consistent_topology (ccg_ss (getCCGDerivedMesh ss base vl el fl pl)) = consistent_topology ss"
proof -
  let ?ss' = "ccg_ss (getCCGDerivedMesh ss base vl el fl pl)"
  have lf: "length (ss_faces ?ss') = length (ss_faces ss)"
    using topology_final(1)[of ss base vl el fl pl] by (simp add: ccgSubSurf_getNumFaces_def)
  have "face_ok ?ss' f = face_ok ss f" for f
    by (simp add: face_ok_def edge_joins_def topology_final lf Let_def)
  then have "face_ok ?ss' = face_ok ss" by (rule ext)
  then show ?thesis by (simp add: consistent_topology_def lf)
qed

lemma consistent_face_ok:
  "consistent_topology ss \<Longrightarrow> f < ccgSubSurf_getNumFaces ss \<Longrightarrow> face_ok ss f"
  by (simp add: consistent_topology_def ccgSubSurf_getNumFaces_def list_all_iff)

text \<open>
  C1. On a consistent topology, whatever the start offsets in the user data (so also with
  those written by the materialization, which leaves the topology consistent), and for grid
  and edge sizes with \<open>1 < gridSize < edgeSize\<close> (the engine has \<open>edgeSize = 2 * gridSize - 1\<close>):
  a boundary sample of a face grid, at distance \<open>d\<close> from the grid's corner vertex along
  either boundary, resolves through \<open>getFaceIndex\<close> to the index that \<open>getEdgeIndex\<close> returns
  for the boundary's edge at the sample's position on that edge. Hence two faces that look
  at the same position of a shared edge, from whichever end and in whichever direction they
  run along it, resolve it to the same global index.
\<close>

theorem shared_boundary_index:
  assumes "consistent_topology ss" and "1 < gridSize" and "gridSize < edgeSize"
    and "f < ccgSubSurf_getNumFaces ss" and "S < ccgSubSurf_getFaceNumVerts ss f"
    and "0 \<le> d" and "d \<le> gridSize - 1"
  shows "(\<exists>p. edge_pos ss (side_edge ss f S sd) (ccgSubSurf_getFaceVert ss f S) d edgeSize = Some p
             \<and> boundary_index ss f S sd d edgeSize gridSize
                 = getEdgeIndex ss (side_edge ss f S sd) p edgeSize)
       \<and> (\<forall>g T sd' d'.
             g < ccgSubSurf_getNumFaces ss \<and> T < ccgSubSurf_getFaceNumVerts ss g
             \<and> 0 \<le> d' \<and> d' \<le> gridSize - 1
             \<and> side_edge ss g T sd' = side_edge ss f S sd
             \<and> edge_pos ss (side_edge ss g T sd') (ccgSubSurf_getFaceVert ss g T) d' edgeSize
                 = edge_pos ss (side_edge ss f S sd) (ccgSubSurf_getFaceVert ss f S) d edgeSize
             \<longrightarrow> boundary_index ss g T sd' d' edgeSize gridSize
                  = boundary_index ss f S sd d edgeSize gridSize)
       \<and> consistent_topology (ccg_ss (getCCGDerivedMesh ss base vl el fl pl))"
proof -
  have okf: "face_ok ss f" using assms(1,4) by (rule consistent_face_ok)
  obtain p where p: "edge_pos ss (side_edge ss f S sd) (ccgSubSurf_getFaceVert ss f S) d edgeSize = Some p"
    using edge_pos_defined[OF okf assms(5)] by blast
  have own: "boundary_index ss f S sd d edgeSize gridSize
             = getEdgeIndex ss (side_edge ss f S sd) p edgeSize"
    using okf assms(5) assms(2,3) assms(6,7) p by (rule boundary_index_edge)
  have other: "\<forall>g T sd' d'.
             g < ccgSubSurf_getNumFaces ss \<and> T < ccgSubSurf_getFaceNumVerts ss g
             \<and> 0 \<le> d' \<and> d' \<le> gridSize - 1
             \<and> side_edge ss g T sd' = side_edge ss f S sd
             \<and> edge_pos ss (side_edge ss g T sd') (ccgSubSurf_getFaceVert ss g T) d' edgeSize
                 = edge_pos ss (side_edge ss f S sd) (ccgSubSurf_getFaceVert ss f S) d edgeSize
             \<longrightarrow> boundary_index ss g T sd' d' edgeSize gridSize
                  = boundary_index ss f S sd d edgeSize gridSize"
  proof (intro allI impI, elim conjE)
    fix g T sd' d'
    assume g: "g < ccgSubSurf_getNumFaces ss" and T: "T < ccgSubSurf_getFaceNumVerts ss g"
      and d': "0 \<le> d'" "d' \<le> gridSize - 1"
      and same: "side_edge ss g T sd' = side_edge ss f S sd"
      and pos: "edge_pos ss (side_edge ss g T sd') (ccgSubSurf_getFaceVert ss g T) d' edgeSize
                 = edge_pos ss (side_edge ss f S sd) (ccgSubSurf_getFaceVert ss f S) d edgeSize"
    have okg: "face_ok ss g" using assms(1) g by (rule consistent_face_ok)
    have p': "edge_pos ss (side_edge ss g T sd') (ccgSubSurf_getFaceVert ss g T) d' edgeSize = Some p"
      using pos p by simp
    have "boundary_index ss g T sd' d' edgeSize gridSize
          = getEdgeIndex ss (side_edge ss g T sd') p edgeSize"
      using okg T assms(2,3) d' p' by (rule boundary_index_edge)
    then show "boundary_index ss g T sd' d' edgeSize gridSize
               = boundary_index ss f S sd d edgeSize gridSize"
      using own same by simp
  qed
  have mat: "consistent_topology (ccg_ss (getCCGDerivedMesh ss base vl el fl pl))"
    using assms(1) by (simp add: consistent_final)
  from p own other mat show ?thesis by blast
qed

lemma final_views:
  "side_edge (ccg_ss (getCCGDerivedMesh ss base vl el fl pl)) f S sd = side_edge ss f S sd"
  "edge_pos (ccg_ss (getCCGDerivedMesh ss base vl el fl pl)) e v d es = edge_pos ss e v d es"
  by (cases sd, simp_all add: side_edge_def edge_pos_def topology_final)

lemma two_quads_views:
  "side_edge two_quads 0 1 AlongX = 1" "side_edge two_quads 1 0 AlongY = 1"
  "ccgSubSurf_getFaceVert two_quads 0 1 = 1" "ccgSubSurf_getFaceVert two_quads 1 0 = 1"
  "edge_pos two_quads 1 1 1 5 = Some 1"
  "side_edge two_quads (Suc 0) 0 AlongY = Suc 0"
  "ccgSubSurf_getFaceVert two_quads (Suc 0) 0 = Suc 0"
  "edge_pos two_quads (Suc 0) (Suc 0) 1 5 = Some 1"
  by (simp_all add: side_edge_def edge_pos_def two_quads_def ccgSubSurf_getFaceEdge_def
        ccgSubSurf_getFaceVert_def ccgSubSurf_getFaceNumVerts_def ccgSubSurf_getEdgeVert0_def
        ccgSubSurf_getEdgeVert1_def)

theorem shared_boundary_index_witness:
  "consistent_topology two_quads
   \<and> consistent_topology (ccg_ss (getCCGDerivedMesh two_quads None None None None None))
   \<and> boundary_index (ccg_ss (getCCGDerivedMesh two_quads None None None None None))
        0 1 AlongX 1 5 3 = 21
   \<and> boundary_index (ccg_ss (getCCGDerivedMesh two_quads None None None None None))
        1 0 AlongY 1 5 3 = 21
   \<and> getEdgeIndex (ccg_ss (getCCGDerivedMesh two_quads None None None None None)) 1 1 5 = 21"
proof -
  let ?ss = "ccg_ss (getCCGDerivedMesh two_quads None None None None None)"
  have c0: "consistent_topology two_quads" by (rule two_quads_consistent)
  have sz: "(1 :: int) < 3" "(3 :: int) < 5" "(0 :: int) \<le> 1" "(1 :: int) \<le> 3 - 1" by simp_all
  have f0: "0 < ccgSubSurf_getNumFaces two_quads" "1 < ccgSubSurf_getFaceNumVerts two_quads 0"
    by (simp_all add: two_quads_sizes)
  from shared_boundary_index [OF c0 sz(1,2) f0 sz(3,4), of AlongX None None None None None]
  have c1: "consistent_topology ?ss" by blast
  have f1: "0 < ccgSubSurf_getNumFaces ?ss" "1 < ccgSubSurf_getFaceNumVerts ?ss 0"
    "1 < ccgSubSurf_getNumFaces ?ss" "0 < ccgSubSurf_getFaceNumVerts ?ss 1"
    by (simp_all add: topology_final two_quads_sizes)
  note t = shared_boundary_index [OF c1 sz(1,2) f1(1,2) sz(3,4), of AlongX None None None None None,
             unfolded final_views topology_final two_quads_views]
  have e: "getEdgeIndex ?ss 1 1 5 = 21"
    using user_data_final(2)[of 1 two_quads None None None None None]
    by (simp add: getEdgeIndex_def Let_def two_quads_sizes two_quads_counts)
  from t have a: "boundary_index ?ss 0 1 AlongX 1 5 3 = getEdgeIndex ?ss 1 1 5" by simp
  from t have "\<forall>g T sd' d'.
             g < ccgSubSurf_getNumFaces two_quads \<and> T < ccgSubSurf_getFaceNumVerts two_quads g
             \<and> 0 \<le> d' \<and> d' \<le> 3 - 1
             \<and> side_edge two_quads g T sd' = 1
             \<and> edge_pos two_quads (side_edge two_quads g T sd')
                  (ccgSubSurf_getFaceVert two_quads g T) d' 5 = Some 1
             \<longrightarrow> boundary_index ?ss g T sd' d' 5 3 = boundary_index ?ss 0 1 AlongX 1 5 3"
    by blast
  from this [rule_format, of 1 0 1 AlongY]
  have b: "boundary_index ?ss 1 0 AlongY 1 5 3 = boundary_index ?ss 0 1 AlongX 1 5 3"
    by (simp add: two_quads_sizes two_quads_views)
  from c0 c1 a b e show ?thesis by simp
qed

subsection \<open>Lazily built caches\<close>

lemma loop_holds_write_simps [simp]:
  "loop_holds_write Loop_test = False" "loop_holds_write Loop_wlock = False"
  "loop_holds_write Loop_retest = True" "loop_holds_write Loop_new = True"
  "loop_holds_write Loop_fill = True" "loop_holds_write Loop_wunlock = True"
  "loop_holds_write Loop_rlock = False" "loop_holds_write Loop_lookup = False"
  "loop_holds_write Loop_runlock = False" "loop_holds_write Loop_return = False"
  by (simp_all add: loop_holds_write_def)

lemma loop_holds_read_simps [simp]:
  "loop_holds_read Loop_test = False" "loop_holds_read Loop_wlock = False"
  "loop_holds_read Loop_retest = False" "loop_holds_read Loop_new = False"
  "loop_holds_read Loop_fill = False" "loop_holds_read Loop_wunlock = False"
  "loop_holds_read Loop_rlock = False" "loop_holds_read Loop_lookup = True"
  "loop_holds_read Loop_runlock = True" "loop_holds_read Loop_return = False"
  by (simp_all add: loop_holds_read_def)

lemma loop_past_build_simps [simp]:
  "loop_past_build Loop_test = False" "loop_past_build Loop_wlock = False"
  "loop_past_build Loop_retest = False" "loop_past_build Loop_new = False"
  "loop_past_build Loop_fill = False" "loop_past_build Loop_wunlock = True"
  "loop_past_build Loop_rlock = True" "loop_past_build Loop_lookup = True"
  "loop_past_build Loop_runlock = False" "loop_past_build Loop_return = False"
  by (simp_all add: loop_past_build_def)

lemma loops_inv_init: "loops_inv loops_init"
  by (simp add: loops_inv_def loops_init_def BLI_RWLOCK_INITIALIZER_def)

lemma loops_inv_writer:
  "loops_inv s \<Longrightarrow> loop_holds_write (loop_at s u) \<Longrightarrow> rw_writer (loops_cache_rwlock s) = Some u"
  unfolding loops_inv_def by blast

lemma loops_inv_others:
  assumes "loops_inv s" "loop_holds_write (loop_at s t)" "u \<noteq> t"
  shows "\<not> loop_holds_write (loop_at s u)" "loop_at s u \<noteq> Loop_new"
proof -
  show a: "\<not> loop_holds_write (loop_at s u)"
    using loops_inv_writer [OF assms(1), of u] loops_inv_writer [OF assms(1,2)] assms(3) by auto
  from a show "loop_at s u \<noteq> Loop_new" by auto
qed

lemma loops_inv_free:
  assumes "loops_inv s" "rw_writer (loops_cache_rwlock s) \<noteq> Some u"
  shows "\<not> loop_holds_write (loop_at s u)" "loop_at s u \<noteq> Loop_new"
proof -
  show a: "\<not> loop_holds_write (loop_at s u)"
    using loops_inv_writer [OF assms(1), of u] assms(2) by auto
  from a show "loop_at s u \<noteq> Loop_new" by auto
qed

lemma loops_inv_counts:
  assumes "loops_inv s"
  shows "ehash_created s \<le> 1" "(ccgdm_ehash s = None) = (ehash_created s = 0)"
    and "loop_at s u = Loop_new \<Longrightarrow> ccgdm_ehash s = None"
  using assms unfolding loops_inv_def by blast+

lemma loops_seen_inv_init: "loops_seen_inv medge loops_init"
  by (simp add: loops_seen_inv_def loops_init_def BLI_RWLOCK_INITIALIZER_def)

lemma loops_seen_invI:
  assumes "\<And>u. loop_holds_read (loop_at s u) \<Longrightarrow> u \<in> rw_readers (loops_cache_rwlock s)"
    and "rw_writer (loops_cache_rwlock s) \<noteq> None \<Longrightarrow> rw_readers (loops_cache_rwlock s) = {}"
    and "\<And>u. loop_at s u = Loop_fill \<Longrightarrow> ccgdm_ehash s = Some (\<lambda>k. None)"
    and "(\<forall>u. loop_at s u \<noteq> Loop_fill)
          \<Longrightarrow> ccgdm_ehash s = None \<or> ccgdm_ehash s = Some (edgehash_fill medge (\<lambda>k. None))"
    and "\<And>u. loop_past_build (loop_at s u) \<Longrightarrow> ccgdm_ehash s \<noteq> None"
    and "\<And>u. loop_at s u = Loop_runlock \<or> loop_at s u = Loop_return
          \<Longrightarrow> loop_seen s u = Some (edgehash_fill medge (\<lambda>k. None))"
  shows "loops_seen_inv medge s"
  unfolding loops_seen_inv_def using assms by blast

lemma loops_seen_invD:
  assumes "loops_seen_inv medge s"
  shows "loop_holds_read (loop_at s u) \<Longrightarrow> u \<in> rw_readers (loops_cache_rwlock s)"
    and "rw_writer (loops_cache_rwlock s) \<noteq> None \<Longrightarrow> rw_readers (loops_cache_rwlock s) = {}"
    and "loop_at s u = Loop_fill \<Longrightarrow> ccgdm_ehash s = Some (\<lambda>k. None)"
    and "(\<forall>u. loop_at s u \<noteq> Loop_fill)
          \<Longrightarrow> ccgdm_ehash s = None \<or> ccgdm_ehash s = Some (edgehash_fill medge (\<lambda>k. None))"
    and "loop_past_build (loop_at s u) \<Longrightarrow> ccgdm_ehash s \<noteq> None"
    and "loop_at s u = Loop_runlock \<or> loop_at s u = Loop_return
          \<Longrightarrow> loop_seen s u = Some (edgehash_fill medge (\<lambda>k. None))"
  using assms unfolding loops_seen_inv_def by blast+

lemma loops_seen_inv_except:
  assumes "loops_seen_inv medge s" "loop_at s t \<noteq> Loop_fill"
    and "\<forall>u. u \<noteq> t \<longrightarrow> loop_at s u \<noteq> Loop_fill"
  shows "ccgdm_ehash s = None \<or> ccgdm_ehash s = Some (edgehash_fill medge (\<lambda>k. None))"
proof -
  have "\<forall>u. loop_at s u \<noteq> Loop_fill" using assms(2,3) by (metis)
  then show ?thesis by (rule loops_seen_invD(4) [OF assms(1)])
qed

lemma loops_inv_step:
  assumes inv: "loops_inv s"
  shows "loops_inv (ccgDM_copyFinalLoopArray_step medge t s)"
proof -
  note w = loops_inv_writer [OF inv]
  note c = loops_inv_counts [OF inv]
  show ?thesis
  proof (cases "loop_at s t")
    case Loop_test
    then show ?thesis using inv unfolding loops_inv_def
      by (auto simp: ccgDM_copyFinalLoopArray_step_def loop_goto_def)
  next
    case Loop_wlock
    show ?thesis
    proof (cases "BLI_rw_mutex_lock t THREAD_LOCK_WRITE (loops_cache_rwlock s)")
      case None
      then show ?thesis using inv Loop_wlock by (simp add: ccgDM_copyFinalLoopArray_step_def)
    next
      case (Some m)
      then have free: "rw_writer (loops_cache_rwlock s) = None" and m: "rw_writer m = Some t"
        by (auto simp: BLI_rw_mutex_lock_def split: if_splits)
      from free have "\<And>u. rw_writer (loops_cache_rwlock s) \<noteq> Some u" by simp
      note o = loops_inv_free [OF inv this]
      show ?thesis unfolding loops_inv_def using Some Loop_wlock m c(1,2) o
        by (simp add: ccgDM_copyFinalLoopArray_step_def loop_goto_def)
    qed
  next
    case Loop_retest
    then have hw: "loop_holds_write (loop_at s t)" by simp
    note o = loops_inv_others [OF inv hw]
    have wt: "rw_writer (loops_cache_rwlock s) = Some t" using w hw .
    show ?thesis unfolding loops_inv_def using Loop_retest o wt c(1,2)
      by (simp add: ccgDM_copyFinalLoopArray_step_def loop_goto_def)
  next
    case Loop_new
    then have hw: "loop_holds_write (loop_at s t)" by simp
    note o = loops_inv_others [OF inv hw]
    have wt: "rw_writer (loops_cache_rwlock s) = Some t" using w hw .
    have e: "ccgdm_ehash s = None" using c(3) Loop_new .
    then have z: "ehash_created s = 0" using c(2) by simp
    show ?thesis unfolding loops_inv_def using Loop_new o wt z
      by (simp add: ccgDM_copyFinalLoopArray_step_def loop_goto_def)
  next
    case Loop_fill
    then have hw: "loop_holds_write (loop_at s t)" by simp
    note o = loops_inv_others [OF inv hw]
    have wt: "rw_writer (loops_cache_rwlock s) = Some t" using w hw .
    show ?thesis unfolding loops_inv_def using Loop_fill o wt c(1,2)
      by (simp add: ccgDM_copyFinalLoopArray_step_def loop_goto_def)
  next
    case Loop_wunlock
    then have hw: "loop_holds_write (loop_at s t)" by simp
    note o = loops_inv_others [OF inv hw]
    have wt: "rw_writer (loops_cache_rwlock s) = Some t" using w hw .
    show ?thesis unfolding loops_inv_def using Loop_wunlock o wt c(1,2)
      by (simp add: ccgDM_copyFinalLoopArray_step_def loop_goto_def BLI_rw_mutex_unlock_def)
  next
    case Loop_rlock
    show ?thesis
    proof (cases "BLI_rw_mutex_lock t THREAD_LOCK_READ (loops_cache_rwlock s)")
      case None
      then show ?thesis using inv Loop_rlock by (simp add: ccgDM_copyFinalLoopArray_step_def)
    next
      case (Some m)
      then have m: "rw_writer m = rw_writer (loops_cache_rwlock s)"
        by (auto simp: BLI_rw_mutex_lock_def split: if_splits)
      show ?thesis using inv unfolding loops_inv_def using Some Loop_rlock m
        by (auto simp: ccgDM_copyFinalLoopArray_step_def loop_goto_def)
    qed
  next
    case Loop_lookup
    then show ?thesis using inv unfolding loops_inv_def
      by (auto simp: ccgDM_copyFinalLoopArray_step_def loop_goto_def)
  next
    case Loop_runlock
    show ?thesis
    proof (cases "rw_writer (loops_cache_rwlock s) = Some t")
      case True
      have o: "\<not> loop_holds_write (loop_at s u)" "loop_at s u \<noteq> Loop_new" for u
      proof -
        show a: "\<not> loop_holds_write (loop_at s u)"
        proof
          assume h: "loop_holds_write (loop_at s u)"
          from w [OF h] True have "u = t" by simp
          with h Loop_runlock show False by simp
        qed
        from a show "loop_at s u \<noteq> Loop_new" by auto
      qed
      show ?thesis unfolding loops_inv_def using Loop_runlock True o c(1,2)
        by (simp add: ccgDM_copyFinalLoopArray_step_def loop_goto_def BLI_rw_mutex_unlock_def)
    next
      case False
      show ?thesis using inv unfolding loops_inv_def using Loop_runlock False
        by (auto simp: ccgDM_copyFinalLoopArray_step_def loop_goto_def BLI_rw_mutex_unlock_def)
    qed
  next
    case Loop_return
    then show ?thesis using inv by (simp add: ccgDM_copyFinalLoopArray_step_def)
  qed
qed




lemma seen_step_test:
  assumes inv: "loops_inv s" and sinv: "loops_seen_inv medge s" and pc: "loop_at s t = Loop_test"
  shows "loops_seen_inv medge (ccgDM_copyFinalLoopArray_step medge t s)"
proof -
  note d = loops_seen_invD [OF sinv]
  have nf: "loop_at s t \<noteq> Loop_fill" using pc by simp
  note h = loops_seen_inv_except [OF sinv nf]
  show ?thesis
    by (rule loops_seen_invI)
       (use pc d h in \<open>auto simp: ccgDM_copyFinalLoopArray_step_def loop_goto_def split: if_splits\<close>)
qed

lemma seen_step_wlock:
  assumes inv: "loops_inv s" and sinv: "loops_seen_inv medge s" and pc: "loop_at s t = Loop_wlock"
  shows "loops_seen_inv medge (ccgDM_copyFinalLoopArray_step medge t s)"
proof (cases "BLI_rw_mutex_lock t THREAD_LOCK_WRITE (loops_cache_rwlock s)")
  case None
  then show ?thesis using sinv pc by (simp add: ccgDM_copyFinalLoopArray_step_def)
next
  case (Some m)
  then have m: "rw_readers (loops_cache_rwlock s) = {}" "rw_readers m = {}"
    by (auto simp: BLI_rw_mutex_lock_def split: if_splits)
  note d = loops_seen_invD [OF sinv]
  have nf: "loop_at s t \<noteq> Loop_fill" using pc by simp
  note h = loops_seen_inv_except [OF sinv nf]
  show ?thesis
    by (rule loops_seen_invI)
       (use pc d h m Some in \<open>auto simp: ccgDM_copyFinalLoopArray_step_def loop_goto_def split: if_splits\<close>)
qed

lemma seen_step_retest:
  assumes inv: "loops_inv s" and sinv: "loops_seen_inv medge s" and pc: "loop_at s t = Loop_retest"
  shows "loops_seen_inv medge (ccgDM_copyFinalLoopArray_step medge t s)"
proof -
  note d = loops_seen_invD [OF sinv]
  have nf: "loop_at s t \<noteq> Loop_fill" using pc by simp
  note h = loops_seen_inv_except [OF sinv nf]
  show ?thesis
    by (rule loops_seen_invI)
       (use pc d h in \<open>auto simp: ccgDM_copyFinalLoopArray_step_def loop_goto_def split: if_splits\<close>)
qed

lemma seen_step_new:
  assumes inv: "loops_inv s" and sinv: "loops_seen_inv medge s" and pc: "loop_at s t = Loop_new"
  shows "loops_seen_inv medge (ccgDM_copyFinalLoopArray_step medge t s)"
proof -
  note d = loops_seen_invD [OF sinv]
  from pc have hw: "loop_holds_write (loop_at s t)" by simp
  note o = loops_inv_others [OF inv hw]
  have o2: "loop_at s u \<noteq> Loop_fill" if "u \<noteq> t" for u
    using o(1) [OF that] by auto
  have wt: "rw_writer (loops_cache_rwlock s) = Some t" using loops_inv_writer [OF inv hw] .
  show ?thesis
    by (rule loops_seen_invI)
       (use pc d o o2 wt in \<open>auto simp: ccgDM_copyFinalLoopArray_step_def loop_goto_def  split: if_splits\<close>)
qed

lemma seen_step_fill:
  assumes inv: "loops_inv s" and sinv: "loops_seen_inv medge s" and pc: "loop_at s t = Loop_fill"
  shows "loops_seen_inv medge (ccgDM_copyFinalLoopArray_step medge t s)"
proof -
  note d = loops_seen_invD [OF sinv]
  from pc have hw: "loop_holds_write (loop_at s t)" by simp
  note o = loops_inv_others [OF inv hw]
  have o2: "loop_at s u \<noteq> Loop_fill" if "u \<noteq> t" for u
    using o(1) [OF that] by auto
  have wt: "rw_writer (loops_cache_rwlock s) = Some t" using loops_inv_writer [OF inv hw] .
  show ?thesis
    by (rule loops_seen_invI)
       (use pc d o o2 wt in \<open>auto simp: ccgDM_copyFinalLoopArray_step_def loop_goto_def  split: if_splits\<close>)
qed

lemma seen_step_wunlock:
  assumes inv: "loops_inv s" and sinv: "loops_seen_inv medge s" and pc: "loop_at s t = Loop_wunlock"
  shows "loops_seen_inv medge (ccgDM_copyFinalLoopArray_step medge t s)"
proof -
  note d = loops_seen_invD [OF sinv]
  from pc have hw: "loop_holds_write (loop_at s t)" by simp
  note o = loops_inv_others [OF inv hw]
  have o2: "loop_at s u \<noteq> Loop_fill" if "u \<noteq> t" for u
    using o(1) [OF that] by auto
  have wt: "rw_writer (loops_cache_rwlock s) = Some t" using loops_inv_writer [OF inv hw] .
  have nf: "loop_at s t \<noteq> Loop_fill" using pc by simp
  note h = loops_seen_inv_except [OF sinv nf]
  have ne: "ccgdm_ehash s \<noteq> None" using d(5) [of t] pc by simp
  show ?thesis
    by (rule loops_seen_invI)
       (use pc d o o2 wt h ne in \<open>auto simp: ccgDM_copyFinalLoopArray_step_def loop_goto_def BLI_rw_mutex_unlock_def split: if_splits\<close>)
qed

lemma seen_step_rlock:
  assumes inv: "loops_inv s" and sinv: "loops_seen_inv medge s" and pc: "loop_at s t = Loop_rlock"
  shows "loops_seen_inv medge (ccgDM_copyFinalLoopArray_step medge t s)"
proof (cases "BLI_rw_mutex_lock t THREAD_LOCK_READ (loops_cache_rwlock s)")
  case None
  then show ?thesis using sinv pc by (simp add: ccgDM_copyFinalLoopArray_step_def)
next
  case (Some m)
  then have m: "rw_writer (loops_cache_rwlock s) = None" "rw_writer m = None"
    "rw_readers m = insert t (rw_readers (loops_cache_rwlock s))"
    by (auto simp: BLI_rw_mutex_lock_def split: if_splits)
  note d = loops_seen_invD [OF sinv]
  have nf: "loop_at s t \<noteq> Loop_fill" using pc by simp
  note h = loops_seen_inv_except [OF sinv nf]
  have ne: "ccgdm_ehash s \<noteq> None" using d(5) [of t] pc by simp
  show ?thesis
    by (rule loops_seen_invI)
       (use pc d h m Some ne in \<open>auto simp: ccgDM_copyFinalLoopArray_step_def loop_goto_def split: if_splits\<close>)
qed

lemma seen_step_lookup:
  assumes inv: "loops_inv s" and sinv: "loops_seen_inv medge s" and pc: "loop_at s t = Loop_lookup"
  shows "loops_seen_inv medge (ccgDM_copyFinalLoopArray_step medge t s)"
proof -
  note d = loops_seen_invD [OF sinv]
  from pc have "t \<in> rw_readers (loops_cache_rwlock s)" using d(1) [of t] by simp
  then have wn: "rw_writer (loops_cache_rwlock s) = None"
    using d(2) by (cases "rw_writer (loops_cache_rwlock s)") auto
  then have "\<And>u. rw_writer (loops_cache_rwlock s) \<noteq> Some u" by simp
  note o = loops_inv_free [OF inv this]
  have nofill: "\<forall>u. loop_at s u \<noteq> Loop_fill"
  proof
    fix u show "loop_at s u \<noteq> Loop_fill" using o(1) [of u] by auto
  qed
  have "ccgdm_ehash s \<noteq> None" using d(5) [of t] pc by simp
  with d(4) [OF nofill] have full: "ccgdm_ehash s = Some (edgehash_fill medge (\<lambda>k. None))"
    by simp
  show ?thesis
    by (rule loops_seen_invI)
       (use pc d full nofill in \<open>auto simp: ccgDM_copyFinalLoopArray_step_def loop_goto_def split: if_splits\<close>)
qed

lemma seen_step_runlock:
  assumes inv: "loops_inv s" and sinv: "loops_seen_inv medge s" and pc: "loop_at s t = Loop_runlock"
  shows "loops_seen_inv medge (ccgDM_copyFinalLoopArray_step medge t s)"
proof -
  note d = loops_seen_invD [OF sinv]
  from pc have "t \<in> rw_readers (loops_cache_rwlock s)" using d(1) [of t] by simp
  then have wn: "rw_writer (loops_cache_rwlock s) = None"
    using d(2) by (cases "rw_writer (loops_cache_rwlock s)") auto
  have nf: "loop_at s t \<noteq> Loop_fill" using pc by simp
  note h = loops_seen_inv_except [OF sinv nf]
  show ?thesis
    by (rule loops_seen_invI)
       (use pc d h wn in \<open>auto simp: ccgDM_copyFinalLoopArray_step_def loop_goto_def BLI_rw_mutex_unlock_def split: if_splits\<close>)
qed

lemma loops_seen_inv_step:
  assumes "loops_inv s" "loops_seen_inv medge s"
  shows "loops_seen_inv medge (ccgDM_copyFinalLoopArray_step medge t s)"
proof (cases "loop_at s t")
  case Loop_return
  then show ?thesis using assms(2) by (simp add: ccgDM_copyFinalLoopArray_step_def)
qed (simp_all add: assms seen_step_test seen_step_wlock seen_step_retest seen_step_new
       seen_step_fill seen_step_wunlock seen_step_rlock seen_step_lookup seen_step_runlock)

lemma loops_seen_inv_fold:
  "loops_inv s \<Longrightarrow> loops_seen_inv medge s
   \<Longrightarrow> loops_seen_inv medge (fold (ccgDM_copyFinalLoopArray_step medge) schedule s)"
  by (induction schedule arbitrary: s) (simp_all add: loops_inv_step loops_seen_inv_step)

lemma loops_seen_inv_run: "loops_seen_inv medge (loops_run medge schedule)"
  unfolding loops_run_def by (rule loops_seen_inv_fold [OF loops_inv_init loops_seen_inv_init])

text \<open>
  Every thread that has finished its lookups in \<open>ccgDM_copyFinalLoopArray\<close> did them in the
  one complete edge hash, whatever the schedule.
\<close>

lemma loop_seen_complete:
  "loop_at (loops_run medge schedule) t = Loop_runlock
     \<or> loop_at (loops_run medge schedule) t = Loop_return
   \<Longrightarrow> loop_seen (loops_run medge schedule) t = Some (edgehash_fill medge (\<lambda>k. None))"
  by (rule loops_seen_invD(6) [OF loops_seen_inv_run])








end
